theory Spec2Isabelle
  imports Complex_Main "HOL-Library.AList" "HOL-Library.Sublist"
begin

section \<open>JavaScript values\<close>

text \<open>
  A JavaScript string is its sequence of UTF-16 code units, so that \<open>length\<close> is the
  \<open>.length\<close> of the source and the non-ASCII literals of the repository can be written
  down. \<open>js\<close> turns an ASCII literal into that representation.

  A finite JavaScript number is the rational that the double is. An arithmetic operation
  of the source whose exact result need not be a double returns the rounding of that
  result, and a decimal literal such as \<open>0.8\<close> is the rounding of the decimal: the
  functions of the strategy engine that divide, multiply by such a literal or add
  fractions take the rounding function \<open>rnd\<close> as their first argument and apply it at
  every such operation, in the order in which the source evaluates. The counts and
  indices of \<open>frequencyMap\<close> and \<open>omissionMap\<close> are small integers, on which \<open>+ 1\<close>
  is exact.
\<close>

type_synonym jsstring = "nat list"

definition js :: "string \<Rightarrow> jsstring" where
  "js s = map of_char s"

text \<open>
  Numbers that come out of \<open>Number(text)\<close> can also be \<open>NaN\<close> or infinite. A finite
  number is the exact rational it denotes: the model is exact where IEEE doubles are
  (integers below \<open>2^53\<close> in magnitude, short decimal fractions as far as they are only
  compared, incremented by one and printed), and it does not round or overflow.
\<close>

datatype jsnum = JNaN | JNum rat | JPosInf | JNegInf

datatype js_error = TypeError | Error jsstring

definition Number_isNaN :: "jsnum \<Rightarrow> bool" where
  "Number_isNaN x = (x = JNaN)"

definition Number_isInteger :: "jsnum \<Rightarrow> bool" where
  "Number_isInteger x = (case x of JNum q \<Rightarrow> q = of_int \<lfloor>q\<rfloor> | _ \<Rightarrow> False)"

text \<open>\<open>x + 1\<close>.\<close>

fun js_succ :: "jsnum \<Rightarrow> jsnum" where
  "js_succ (JNum q) = JNum (q + 1)"
| "js_succ x = x"

text \<open>White space and line terminators of the language: what \<open>String.prototype.trim\<close>
  strips and what \<open>Number\<close> ignores around a numeric literal.\<close>

definition is_ws :: "nat \<Rightarrow> bool" where
  "is_ws c = (c \<in> set [0x9, 0xA, 0xB, 0xC, 0xD, 0x20, 0xA0, 0x1680, 0x2028, 0x2029,
                         0x202F, 0x205F, 0x3000, 0xFEFF]
             \<or> (0x2000 \<le> c \<and> c \<le> 0x200A))"

definition trim :: "jsstring \<Rightarrow> jsstring" where
  "trim s = rev (dropWhile is_ws (rev (dropWhile is_ws s)))"

definition is_digit :: "nat \<Rightarrow> bool" where
  "is_digit c = (48 \<le> c \<and> c \<le> 57)"

text \<open>Digit values in a radix up to 16: \<open>0-9\<close>, \<open>a-f\<close>, \<open>A-F\<close>.\<close>

definition digit_val :: "nat \<Rightarrow> nat" where
  "digit_val c = (if 48 \<le> c \<and> c \<le> 57 then c - 48
                  else if 97 \<le> c \<and> c \<le> 102 then c - 87
                  else if 65 \<le> c \<and> c \<le> 70 then c - 55 else 16)"

definition radix_value :: "nat \<Rightarrow> jsstring \<Rightarrow> nat" where
  "radix_value r ds = foldl (\<lambda>a c. r * a + digit_val c) 0 ds"

definition digits_value :: "jsstring \<Rightarrow> nat" where
  "digits_value ds = radix_value 10 ds"

text \<open>\<open>Number(text)\<close> on a string (StringToNumber): an empty or blank text is 0; a
  binary, octal or hexadecimal integer literal; an optionally signed \<open>Infinity\<close> or
  decimal literal \<open>digits . digits exponent\<close> with at least one digit in the mantissa;
  everything else is \<open>NaN\<close>.\<close>

definition parse_exponent :: "jsstring \<Rightarrow> int option" where
  "parse_exponent r =
     (case r of
        [] \<Rightarrow> Some 0
      | c # t \<Rightarrow>
          if c = 101 \<or> c = 69
          then (let neg = (t \<noteq> [] \<and> hd t = 45);
                    ds = (if t \<noteq> [] \<and> (hd t = 43 \<or> hd t = 45) then tl t else t)
                in if ds \<noteq> [] \<and> list_all is_digit ds
                   then Some (if neg then - int (digits_value ds) else int (digits_value ds))
                   else None)
          else None)"

definition parse_unsigned_decimal :: "jsstring \<Rightarrow> jsnum" where
  "parse_unsigned_decimal s =
     (if s = js ''Infinity'' then JPosInf
      else let ip = takeWhile is_digit s;
               r1 = dropWhile is_digit s;
               has_dot = (r1 \<noteq> [] \<and> hd r1 = 46);
               fp = (if has_dot then takeWhile is_digit (tl r1) else []);
               r2 = (if has_dot then dropWhile is_digit (tl r1) else r1)
           in if ip = [] \<and> fp = [] then JNaN
              else (case parse_exponent r2 of
                      None \<Rightarrow> JNaN
                    | Some e \<Rightarrow>
                        let m = of_nat (digits_value ip) + of_nat (digits_value fp) / 10 ^ length fp
                        in JNum (if 0 \<le> e then m * 10 ^ nat e else m / 10 ^ nat (- e))))"

fun js_neg :: "jsnum \<Rightarrow> jsnum" where
  "js_neg (JNum q) = JNum (- q)"
| "js_neg JPosInf = JNegInf"
| "js_neg JNegInf = JPosInf"
| "js_neg JNaN = JNaN"

definition parse_nondecimal :: "jsstring \<Rightarrow> jsnum option" where
  "parse_nondecimal s =
     (case s of
        z # x # ds \<Rightarrow>
          (let radix = (if x = 120 \<or> x = 88 then 16 else if x = 111 \<or> x = 79 then 8
                        else if x = 98 \<or> x = 66 then 2 else 0)
           in if z = 48 \<and> radix \<noteq> 0 \<and> ds \<noteq> [] \<and> list_all (\<lambda>c. digit_val c < radix) ds
              then Some (JNum (of_nat (radix_value radix ds))) else None)
      | _ \<Rightarrow> None)"

definition js_Number :: "jsstring \<Rightarrow> jsnum" where
  "js_Number text =
     (let t = trim text
      in if t = [] then JNum 0
         else (case parse_nondecimal t of
                 Some v \<Rightarrow> v
               | None \<Rightarrow>
                   (case t of
                      c # r \<Rightarrow> if c = 43 then parse_unsigned_decimal r
                               else if c = 45 then js_neg (parse_unsigned_decimal r)
                               else parse_unsigned_decimal t
                    | [] \<Rightarrow> JNum 0)))"

text \<open>\<open>Number(v)\<close> where \<open>v\<close> may be \<open>undefined\<close> (\<open>None\<close>).\<close>

definition js_Number_opt :: "jsstring option \<Rightarrow> jsnum" where
  "js_Number_opt v = (case v of None \<Rightarrow> JNaN | Some text \<Rightarrow> js_Number text)"

text \<open>Decimal digits of a natural number, as \<open>String(n)\<close> prints an integer.\<close>

fun dec_digits :: "nat \<Rightarrow> jsstring" where
  "dec_digits n = (if n < 10 then [48 + n] else dec_digits (n div 10) @ [48 + n mod 10])"

text \<open>\<open>String(x)\<close> and \<open>`${x}`\<close> for a number: the integer digits, and for a fraction
  the point and the decimal digits of the fraction (at most 20 of them). This is what the
  language prints for integers below \<open>10^21\<close> and for decimal fractions of at most 15
  significant digits that are not below \<open>10^-6\<close>; the claims use no other number.\<close>

fun frac_digits :: "nat \<Rightarrow> rat \<Rightarrow> jsstring" where
  "frac_digits 0 r = []"
| "frac_digits (Suc k) r =
     (if r = 0 then []
      else (48 + nat \<lfloor>r * 10\<rfloor>) # frac_digits k (r * 10 - of_int \<lfloor>r * 10\<rfloor>))"

fun js_String :: "jsnum \<Rightarrow> jsstring" where
  "js_String JNaN = js ''NaN''"
| "js_String JPosInf = js ''Infinity''"
| "js_String JNegInf = js ''-Infinity''"
| "js_String (JNum q) =
     (let a = \<bar>q\<bar>; ip = \<lfloor>a\<rfloor>; fr = a - of_int ip
      in (if q < 0 then js ''-'' else []) @ dec_digits (nat ip)
         @ (if fr = 0 then [] else js ''.'' @ frac_digits 20 fr))"

text \<open>\<open>String.prototype.padStart(n, "0")\<close>.\<close>

definition padStart0 :: "nat \<Rightarrow> jsstring \<Rightarrow> jsstring" where
  "padStart0 n s = replicate (n - length s) 48 @ s"

text \<open>\<open>String.prototype.split(sep)\<close> for a separator of one code unit: the pieces
  between the separators, at least one.\<close>

fun split_on :: "nat \<Rightarrow> jsstring \<Rightarrow> jsstring list" where
  "split_on sep [] = [[]]"
| "split_on sep (c # cs) =
     (if c = sep then [] # split_on sep cs
      else (case split_on sep cs of p # ps \<Rightarrow> (c # p) # ps | [] \<Rightarrow> [[c]]))"

text \<open>\<open>xs[i]\<close> of an array: \<open>undefined\<close> out of range.\<close>

definition at_index :: "'a list \<Rightarrow> nat \<Rightarrow> 'a option" where
  "at_index xs i = (if i < length xs then Some (xs ! i) else None)"

text \<open>\<open>Number.prototype.toFixed(f)\<close> below \<open>10^21\<close>: the sign is taken first, then the
  integer \<open>n\<close> nearest to \<open>x * 10^f\<close> (the larger one on a tie), printed with at least
  \<open>f + 1\<close> digits and a point before the last \<open>f\<close>.\<close>

definition toFixed :: "nat \<Rightarrow> rat \<Rightarrow> jsstring" where
  "toFixed f x =
     (let s = (if x < 0 then js ''-'' else []);
          a = \<bar>x\<bar>;
          n = nat \<lfloor>a * 10 ^ f + 1 / 2\<rfloor>;
          m = dec_digits n;
          k = length m;
          m2 = (if f \<noteq> 0 \<and> k \<le> f then replicate (f + 1 - k) 48 @ m else m)
      in if f \<noteq> 0
         then s @ take (length m2 - f) m2 @ js ''.'' @ drop (length m2 - f) m2
         else s @ m2)"

text \<open>\<open>Array.prototype.sort(cmp)\<close>: the sort of the language is stable, and for a
  comparator that is a difference of keys the stable arrangement is unique; it is computed
  here by insertion from the right.\<close>

fun insort_cmp :: "('a \<Rightarrow> 'a \<Rightarrow> rat) \<Rightarrow> 'a \<Rightarrow> 'a list \<Rightarrow> 'a list" where
  "insort_cmp cmp x [] = [x]"
| "insort_cmp cmp x (y # ys) =
     (if cmp x y \<le> 0 then x # y # ys else y # insort_cmp cmp x ys)"

definition sort_cmp :: "('a \<Rightarrow> 'a \<Rightarrow> rat) \<Rightarrow> 'a list \<Rightarrow> 'a list" where
  "sort_cmp cmp xs = foldr (insort_cmp cmp) xs []"

section \<open>Strategy engine (src/lib/strategies.ts)\<close>

text \<open>
  A \<open>Draw\<close> row of the store. The column \<open>numbersJson\<close> holds the text that
  \<open>JSON.stringify\<close> wrote for the array of winning numbers; it is represented by that
  array, and \<open>decodeNumbers\<close> (\<open>JSON.parse\<close>) reads it back.
\<close>

record Draw =
  drawId :: nat
  issueNo :: jsstring
  drawDate :: int
  numbersJson :: "nat list"
  specialNumber :: int

text \<open>A \<open>Map<number, number>\<close> is the list of its entries in insertion order;
  \<open>Map.get\<close> is \<open>map_of\<close> and \<open>Map.set\<close> is \<open>AList.update\<close> (an existing key keeps
  its place, a new key goes last).\<close>

type_synonym nummap = "(nat \<times> rat) list"

definition ALL_NUMBERS :: "nat list" where
  "ALL_NUMBERS = map (\<lambda>i. i + 1) [0..<49]"

definition decodeNumbers :: "Draw \<Rightarrow> nat list" where
  "decodeNumbers draw = numbersJson draw"

definition omissionMap :: "Draw list \<Rightarrow> nummap" where
  "omissionMap draws =
     fold (\<lambda>(idx, draw) omission.
             fold (\<lambda>n om.
                     if (case map_of om n of None \<Rightarrow> 9999 | Some v \<Rightarrow> v) > of_nat (idx + 1)
                     then AList.update n (of_nat (idx + 1)) om else om)
                  (decodeNumbers draw) omission)
          (enumerate 0 draws)
          (map (\<lambda>n. (n, of_nat (length draws + 1))) ALL_NUMBERS)"

definition frequencyMap :: "Draw list \<Rightarrow> nummap" where
  "frequencyMap draws =
     fold (\<lambda>draw freq.
             fold (\<lambda>n fr. AList.update n ((case map_of fr n of None \<Rightarrow> 0 | Some v \<Rightarrow> v) + 1) fr)
                  (decodeNumbers draw) freq)
          draws
          (map (\<lambda>n. (n, 0)) ALL_NUMBERS)"

text \<open>\<open>weightedRecencyMap\<close>: the weight \<open>1 / (1 + i)\<close> is a rounded quotient, and each
  \<open>(weighted.get(n) ?? 0) + weight\<close> is a rounded sum.\<close>

definition weightedRecencyMap :: "(rat \<Rightarrow> rat) \<Rightarrow> Draw list \<Rightarrow> nummap" where
  "weightedRecencyMap rnd draws =
     fold (\<lambda>(i, draw) weighted.
             let weight = rnd (1 / rnd (1 + of_nat i)) in
             fold (\<lambda>n w. AList.update n
                            (rnd ((case map_of w n of None \<Rightarrow> 0 | Some v \<Rightarrow> v) + weight)) w)
                  (decodeNumbers draw) weighted)
          (enumerate 0 draws)
          (map (\<lambda>n. (n, 0)) ALL_NUMBERS)"

text \<open>\<open>normalize\<close>: \<open>range = max - min || 1\<close> is 1 exactly when the computed \<open>max - min\<close>
  is 0; each value is the rounded quotient of the rounded difference \<open>v - min\<close> by
  \<open>range\<close>. \<open>Math.min\<close> and \<open>Math.max\<close> return one of their arguments. On the empty map
  the source maps over no entry, whatever \<open>Math.min()\<close> is.\<close>

definition normalize_map :: "(rat \<Rightarrow> rat) \<Rightarrow> nummap \<Rightarrow> nummap" where
  "normalize_map rnd m =
     (if m = [] then []
      else let vals = map snd m;
               mn = Min (set vals);
               mx = Max (set vals);
               range = (if rnd (mx - mn) = 0 then 1 else rnd (mx - mn))
           in map (\<lambda>(k, v). (k, rnd (rnd (v - mn) / range))) m)"

text \<open>\<open>pickTopSix\<close>. The first loop walks the sorted entries and stops at six; the
  \<open>while\<close> loop then appends the first entry of the sorted list whose number is not yet
  selected, until six are selected or none is left.\<close>

record Pick =
  number :: nat
  rank :: nat
  score :: rat
  reason :: jsstring

fun greedy :: "(nat \<times> rat) list \<Rightarrow> (nat \<times> rat) list \<Rightarrow> (nat \<times> rat) list" where
  "greedy [] selected = selected"
| "greedy (item # rest) selected =
     (if length selected = 6 then selected
      else let next = map fst (selected @ [item]);
               oddCount = length (filter (\<lambda>n. n mod 2 = 1) next)
           in if length next \<ge> 4 \<and> (oddCount = 0 \<or> oddCount = length next)
              then greedy rest selected
              else greedy rest (selected @ [item]))"

function fill :: "(nat \<times> rat) list \<Rightarrow> (nat \<times> rat) list \<Rightarrow> (nat \<times> rat) list" where
  "fill sortedList selected =
     (if length selected < 6
      then (case find (\<lambda>(n, s). \<not> list_ex (\<lambda>(picked, s'). picked = n) selected) sortedList of
              None \<Rightarrow> selected
            | Some fallback \<Rightarrow> fill sortedList (selected @ [fallback]))
      else selected)"
  by pat_completeness auto
termination
  by (relation "measure (\<lambda>(sortedList, selected). 6 - length selected)") auto

text \<open>The arrays \<open>sorted\<close> and \<open>selected\<close> of \<open>pickTopSix\<close> (the latter after both
  loops), and the picks mapped from \<open>selected\<close>.\<close>

definition pickTopSix_sorted :: "nummap \<Rightarrow> nummap" where
  "pickTopSix_sorted scores = sort_cmp (\<lambda>a b. snd b - snd a) scores"

definition pickTopSix_selected :: "nummap \<Rightarrow> nummap" where
  "pickTopSix_selected scores =
     (let sortedList = pickTopSix_sorted scores
      in fill sortedList (greedy sortedList []))"

definition pickTopSix :: "nummap \<Rightarrow> jsstring \<Rightarrow> Pick list" where
  "pickTopSix scores reasonPrefix =
     (let selected = pickTopSix_selected scores
      in map (\<lambda>((n, sc), index).
                \<lparr>number = n, rank = index + 1, score = sc,
                 reason = reasonPrefix @ js '' score='' @ toFixed 4 sc\<rparr>)
             (zip selected [0..<length selected]))"

datatype StrategyId = balanced_v1 | hot_v1 | cold_rebound_v1 | momentum_v1

text \<open>The \<open>name\<close> fields of \<open>strategyMeta\<close>, as UTF-16 code units.\<close>

fun strategyMeta_name :: "StrategyId \<Rightarrow> jsstring" where
  "strategyMeta_name balanced_v1 =
     [0x7EC4, 0x5408, 0x7B56, 0x7565, 0x20, 0x76, 0x31, 0xFF08, 0x9ED8, 0x8BA4, 0xFF09]"
| "strategyMeta_name hot_v1 = [0x70ED, 0x53F7, 0x7B56, 0x7565, 0x20, 0x76, 0x31]"
| "strategyMeta_name cold_rebound_v1 = [0x51B7, 0x53F7, 0x56DE, 0x8865, 0x20, 0x76, 0x31]"
| "strategyMeta_name momentum_v1 = [0x8FD1, 0x671F, 0x52A8, 0x91CF, 0x20, 0x76, 0x31]"

fun strategy_text :: "StrategyId \<Rightarrow> jsstring" where
  "strategy_text balanced_v1 = js ''balanced_v1''"
| "strategy_text hot_v1 = js ''hot_v1''"
| "strategy_text cold_rebound_v1 = js ''cold_rebound_v1''"
| "strategy_text momentum_v1 = js ''momentum_v1''"

record StrategyResult =
  strategy :: StrategyId
  strategyVersion :: jsstring
  picks :: "Pick list"

definition window :: "Draw list \<Rightarrow> Draw list" where
  "window recentDraws = take (min 80 (length recentDraws)) recentDraws"

text \<open>The composite score map of \<open>generateStrategyResult\<close>: one entry per number of
  \<open>ALL_NUMBERS\<close>, set in that order. Each weight is the rounding of its decimal literal,
  each product and each sum is rounded, and \<open>a + b + c\<close> is \<open>(a + b) + c\<close>.\<close>

definition composite :: "(rat \<Rightarrow> rat) \<Rightarrow> StrategyId \<Rightarrow> Draw list \<Rightarrow> nummap" where
  "composite rnd strat win =
     (let freq = normalize_map rnd (frequencyMap win);
          omission = normalize_map rnd (omissionMap win);
          momentum = normalize_map rnd (weightedRecencyMap rnd win)
      in map (\<lambda>n.
                let f = (case map_of freq n of None \<Rightarrow> 0 | Some v \<Rightarrow> v);
                    om = (case map_of omission n of None \<Rightarrow> 0 | Some v \<Rightarrow> v);
                    m = (case map_of momentum n of None \<Rightarrow> 0 | Some v \<Rightarrow> v)
                in (n, if strat = hot_v1
                       then rnd (rnd (f * rnd (8 / 10)) + rnd (m * rnd (2 / 10)))
                       else if strat = cold_rebound_v1
                       then rnd (rnd (om * rnd (7 / 10)) + rnd (m * rnd (3 / 10)))
                       else if strat = momentum_v1
                       then rnd (rnd (m * rnd (9 / 10)) + rnd (f * rnd (1 / 10)))
                       else rnd (rnd (rnd (f * rnd (45 / 100)) + rnd (om * rnd (35 / 100)))
                                 + rnd (m * rnd (2 / 10)))))
             ALL_NUMBERS)"

definition generateStrategyResult ::
  "(rat \<Rightarrow> rat) \<Rightarrow> StrategyId \<Rightarrow> Draw list \<Rightarrow> StrategyResult" where
  "generateStrategyResult rnd strat recentDraws =
     \<lparr>strategy = strat,
      strategyVersion = strategy_text strat,
      picks = pickTopSix (composite rnd strat (window recentDraws)) (strategyMeta_name strat)\<rparr>"

section \<open>Prediction service (src/lib/prediction-service.ts)\<close>

text \<open>\<open>nextIssueNo\<close>. The destructuring \<open>[year, no] = issueNo.split("/")\<close> takes the first
  two pieces, \<open>undefined\<close> where there is none; \<open>!year\<close> holds for the empty string and
  for \<open>undefined\<close>. Reading \<open>no.length\<close> of an \<open>undefined\<close> would be a \<open>TypeError\<close>.\<close>

definition nextIssueNo :: "jsstring \<Rightarrow> js_error + jsstring" where
  "nextIssueNo issue =
     (let parts = split_on 47 issue;
          year = at_index parts 0;
          no = at_index parts 1;
          seq = js_Number_opt no
      in if (year = None \<or> year = Some []) \<or> Number_isNaN seq then Inr issue
         else (case no of
                 None \<Rightarrow> Inl TypeError
               | Some noText \<Rightarrow>
                   Inr (the year @ js ''/'' @ padStart0 (length noText) (js_String (js_succ seq)))))"













section \<open>History audit (scripts/audit-history.ts)\<close>










text \<open>Order of numbers: \<open>a <= b\<close>, and the sign of \<open>a - b\<close> as the comparator
  \<open>(a, b) => a - b\<close> gives it to \<open>sort\<close> (a \<open>NaN\<close> difference counts as 0).\<close>

fun js_le :: "jsnum \<Rightarrow> jsnum \<Rightarrow> bool" where
  "js_le JNaN b = False"
| "js_le a JNaN = False"
| "js_le JNegInf b = True"
| "js_le a JPosInf = True"
| "js_le (JNum a) (JNum b) = (a \<le> b)"
| "js_le a b = False"













section \<open>Draw sources (src/lib/csv.ts, src/lib/official-source.ts, src/lib/data-source.ts)\<close>

text \<open>
  What the normalizers call outside themselves is a parameter of the model, the record
  \<open>host\<close>: \<open>Number(text)\<close>; \<open>new Date(text).getTime()\<close>, \<open>None\<close> when it is \<open>NaN\<close>;
  \<open>new Date(Date.UTC(yyyy, mm - 1, dd, 12, 0, 0)).getTime()\<close> from \<open>yyyy\<close>, \<open>mm\<close> and
  \<open>dd\<close>, \<open>None\<close> when it is \<open>NaN\<close>; the text \<open>`${v}`\<close> of a JSON value \<open>v\<close> that is neither
  \<open>null\<close> nor \<open>undefined\<close>; the string that \<open>v\<close> is when \<open>typeof v\<close> is \<open>"string"\<close>; and
  \<open>parse\<close> of \<open>csv-parse/sync\<close> with the options of the source, which returns the rows or
  throws. The type \<open>'v\<close> is the type of the JSON values of an official row.
\<close>

record 'v host =
  to_number :: "jsstring \<Rightarrow> jsnum"
  date_time :: "jsstring \<Rightarrow> int option"
  utc_time :: "jsnum \<Rightarrow> jsnum \<Rightarrow> jsnum \<Rightarrow> int option"
  to_text :: "'v \<Rightarrow> jsstring"
  string_value :: "'v \<Rightarrow> jsstring option"
  csv_parse :: "jsstring \<Rightarrow> js_error + (jsstring \<times> jsstring) list list"

text \<open>A \<open>CsvDrawRecord\<close>: the numbers are JavaScript numbers.\<close>

record CsvDrawRecord =
  recIssueNo :: jsstring
  recDrawDate :: int
  recNumbers :: "jsnum list"
  recSpecialNumber :: jsnum

text \<open>\<open>a < b\<close> on numbers.\<close>

fun js_lt :: "jsnum \<Rightarrow> jsnum \<Rightarrow> bool" where
  "js_lt JNaN b = False"
| "js_lt a JNaN = False"
| "js_lt JPosInf b = False"
| "js_lt a JNegInf = False"
| "js_lt JNegInf b = True"
| "js_lt a JPosInf = True"
| "js_lt (JNum a) (JNum b) = (a < b)"

text \<open>The predicate \<open>(n) => Number.isInteger(n) && n >= 1 && n <= 49\<close> of the filters.\<close>

definition valid_number :: "jsnum \<Rightarrow> bool" where
  "valid_number n = (Number_isInteger n \<and> js_le (JNum 1) n \<and> js_le n (JNum 49))"

subsection \<open>CSV rows\<close>

text \<open>A row of the parsed CSV is the list of its entries, header first; the object
  \<open>row\<close> built from it is the list of entries in which a key set again takes the new
  value.\<close>

type_synonym csvrow = "(jsstring \<times> jsstring) list"

definition ISSUE_KEYS :: "jsstring list" where
  "ISSUE_KEYS = [[0x671F, 0x53F7], [0x671F, 0x6578]]"

definition DATE_KEYS :: "jsstring list" where
  "DATE_KEYS = [[0x65E5, 0x671F]]"

definition COMBINED_NUMBERS_KEYS :: "jsstring list" where
  "COMBINED_NUMBERS_KEYS = [[0x4E2D, 0x5956, 0x53F7, 0x7801], [0x4E2D, 0x734E, 0x865F, 0x78BC]]"

definition SPECIAL_KEYS :: "jsstring list" where
  "SPECIAL_KEYS = [[0x7279, 0x522B, 0x53F7, 0x7801], [0x7279, 0x5225, 0x865F, 0x78BC]]"

definition normalizeHeaderKey :: "jsstring \<Rightarrow> jsstring" where
  "normalizeHeaderKey key = trim (filter (\<lambda>c. c \<noteq> 0xFEFF) key)"

definition normalizeRow :: "csvrow \<Rightarrow> csvrow" where
  "normalizeRow rawRow = fold (\<lambda>(k, v) row. AList.update (normalizeHeaderKey k) v row) rawRow []"

text \<open>\<open>row[k] !== undefined && row[k] !== null && `${row[k]}`.trim() !== ""\<close>.\<close>

definition present :: "csvrow \<Rightarrow> jsstring \<Rightarrow> bool" where
  "present row k = (case map_of row k of None \<Rightarrow> False | Some v \<Rightarrow> trim v \<noteq> [])"

definition pickValue :: "csvrow \<Rightarrow> jsstring list \<Rightarrow> jsstring option" where
  "pickValue row keys =
     (case find (present row) keys of
        None \<Rightarrow> None
      | Some k \<Rightarrow> map_option trim (map_of row k))"

definition parseNumbers_csv :: "'v host \<Rightarrow> jsstring \<Rightarrow> jsnum list" where
  "parseNumbers_csv h v =
     filter valid_number (map (\<lambda>n. to_number h (trim n)) (split_on 44 v))"

definition parseSplitNumberColumns :: "'v host \<Rightarrow> csvrow \<Rightarrow> jsnum list" where
  "parseSplitNumberColumns h row =
     (case find (present row)
             [[0x4E2D, 0x5956, 0x53F7, 0x7801, 0x20, 0x31],
              [0x4E2D, 0x734E, 0x865F, 0x78BC, 0x20, 0x31], js ''1''] of
        None \<Rightarrow> []
      | Some n1Key \<Rightarrow>
          (let keys = [n1Key, js ''2'', js ''3'', js ''4'', js ''5'', js ''6'']
           in if list_ex (\<lambda>k. \<not> present row k) keys then []
              else filter valid_number
                     (map (\<lambda>k. to_number h
                                  (trim (case map_of row k of
                                           None \<Rightarrow> js ''undefined''
                                         | Some v \<Rightarrow> v))) keys)))"

text \<open>The function mapped over the rows by \<open>parseDrawCsv\<close>: the record of a row, or
  \<open>None\<close> for \<open>null\<close>. A value that \<open>pickValue\<close> returns is not empty, so the tests
  \<open>!issueNo\<close>, \<open>drawDateText ? ... : null\<close> and \<open>if (combined)\<close> are tests for
  \<open>undefined\<close>; \<open>Number(undefined)\<close> is \<open>NaN\<close>.\<close>

definition csv_record :: "'v host \<Rightarrow> csvrow \<Rightarrow> CsvDrawRecord option" where
  "csv_record h rawRow =
     (let row = normalizeRow rawRow;
          issue = pickValue row ISSUE_KEYS;
          drawDateText = pickValue row DATE_KEYS;
          dt = (case drawDateText of
                  None \<Rightarrow> None
                | Some t \<Rightarrow> date_time h (t @ js ''T12:00:00Z''));
          combined = pickValue row COMBINED_NUMBERS_KEYS;
          nums = (case combined of
                    Some c \<Rightarrow> parseNumbers_csv h c
                  | None \<Rightarrow> parseSplitNumberColumns h row);
          special = (case pickValue row SPECIAL_KEYS of
                       None \<Rightarrow> JNaN
                     | Some t \<Rightarrow> to_number h t)
      in case (issue, dt) of
           (Some i, Some d) \<Rightarrow>
             if length nums \<noteq> 6 then None
             else if \<not> Number_isInteger special \<or> js_lt special (JNum 1) \<or> js_lt (JNum 49) special
             then None
             else Some \<lparr>recIssueNo = i, recDrawDate = d, recNumbers = nums,
                        recSpecialNumber = special\<rparr>
         | _ \<Rightarrow> None)"

text \<open>The comparator \<open>(a, b) => a.drawDate.getTime() - b.drawDate.getTime()\<close>.\<close>

definition by_date :: "CsvDrawRecord \<Rightarrow> CsvDrawRecord \<Rightarrow> rat" where
  "by_date a b = of_int (recDrawDate a - recDrawDate b)"

definition parseDrawCsv :: "'v host \<Rightarrow> jsstring \<Rightarrow> js_error + CsvDrawRecord list" where
  "parseDrawCsv h csvRaw =
     (case csv_parse h csvRaw of
        Inl e \<Rightarrow> Inl e
      | Inr records \<Rightarrow> Inr (sort_cmp by_date (List.map_filter (csv_record h) records)))"

subsection \<open>Official rows\<close>

text \<open>An official row gives to a field name its value, \<open>None\<close> when the row has no such
  field or the field is \<open>null\<close>: the source reads a field through \<open>value ?? ""\<close> or tests
  \<open>typeof\<close>, which do not tell the two apart.\<close>

type_synonym 'v OfficialRow = "jsstring \<Rightarrow> 'v option"

text \<open>\<open>`${value ?? ""}`.trim()\<close>.\<close>

definition field_text :: "'v host \<Rightarrow> 'v option \<Rightarrow> jsstring" where
  "field_text h v = trim (case v of None \<Rightarrow> [] | Some x \<Rightarrow> to_text h x)"

text \<open>The first value that a function gives on a list: a loop that returns from its
  body.\<close>

fun first_some :: "('a \<Rightarrow> 'b option) \<Rightarrow> 'a list \<Rightarrow> 'b option" where
  "first_some f [] = None"
| "first_some f (x # xs) = (case f x of Some y \<Rightarrow> Some y | None \<Rightarrow> first_some f xs)"

text \<open>The regular expressions \<open>/^\d{4}-\d{2}-\d{2}$/\<close>, \<open>/^(\d{1,2})\/(\d{1,2})\/(\d{4})$/\<close>
  with its three groups, and \<open>/^\d{2}\/\d{3}$/\<close>.\<close>

definition iso_shape :: "jsstring \<Rightarrow> bool" where
  "iso_shape t =
     (length t = 10 \<and> list_all is_digit (take 4 t) \<and> t ! 4 = 45
      \<and> list_all is_digit (take 2 (drop 5 t)) \<and> t ! 7 = 45 \<and> list_all is_digit (drop 8 t))"

definition dmy_match :: "jsstring \<Rightarrow> (jsstring \<times> jsstring \<times> jsstring) option" where
  "dmy_match t =
     (case split_on 47 t of
        [dd, mm, yyyy] \<Rightarrow>
          if (length dd = 1 \<or> length dd = 2) \<and> list_all is_digit dd
             \<and> (length mm = 1 \<or> length mm = 2) \<and> list_all is_digit mm
             \<and> length yyyy = 4 \<and> list_all is_digit yyyy
          then Some (dd, mm, yyyy) else None
      | _ \<Rightarrow> None)"

definition issue_shape :: "jsstring \<Rightarrow> bool" where
  "issue_shape t =
     (length t = 6 \<and> list_all is_digit (take 2 t) \<and> t ! 2 = 47 \<and> list_all is_digit (drop 3 t))"

definition parseDate :: "'v host \<Rightarrow> 'v option \<Rightarrow> int option" where
  "parseDate h input =
     (case input of
        None \<Rightarrow> None
      | Some v \<Rightarrow>
          (case string_value h v of
             None \<Rightarrow> None
           | Some s \<Rightarrow>
               (let t = trim s
                in if t = [] then None
                   else if iso_shape t then date_time h (t @ js ''T12:00:00Z'')
                   else (case dmy_match t of
                           Some (dd, mm, yyyy) \<Rightarrow>
                             utc_time h (to_number h yyyy) (to_number h mm) (to_number h dd)
                         | None \<Rightarrow> date_time h t))))"

definition toInt :: "'v host \<Rightarrow> 'v option \<Rightarrow> jsnum option" where
  "toInt h v =
     (let n = to_number h (field_text h v)
      in if \<not> Number_isInteger n then None else Some n)"

text \<open>\<open>text.split(/[^\d]+/).filter(Boolean)\<close>: the maximal runs of digits of the text.\<close>

fun digit_runs_from :: "jsstring \<Rightarrow> jsstring \<Rightarrow> jsstring list" where
  "digit_runs_from cur [] = (if cur = [] then [] else [cur])"
| "digit_runs_from cur (c # cs) =
     (if is_digit c then digit_runs_from (cur @ [c]) cs
      else (if cur = [] then [] else [cur]) @ digit_runs_from [] cs)"

definition digit_runs :: "jsstring \<Rightarrow> jsstring list" where
  "digit_runs t = digit_runs_from [] t"

definition parseNumberList :: "'v host \<Rightarrow> 'v option \<Rightarrow> jsnum list" where
  "parseNumberList h v =
     (let t = field_text h v
      in if t = [] then []
         else filter valid_number (map (to_number h) (digit_runs t)))"

definition extractIssueNo :: "'v host \<Rightarrow> 'v OfficialRow \<Rightarrow> jsstring option" where
  "extractIssueNo h row =
     find issue_shape
       (map (\<lambda>f. field_text h (row f))
          [js ''issueNo'', js ''drawNo'', js ''draw'', js ''issue'', js ''no'', js ''period'',
           js ''id''])"

definition extractDate :: "'v host \<Rightarrow> 'v OfficialRow \<Rightarrow> int option" where
  "extractDate h row =
     first_some (\<lambda>f. parseDate h (row f))
       [js ''date'', js ''drawDate'', js ''draw_date'', js ''drawdate'', js ''dt'']"

definition extractNumbers :: "'v host \<Rightarrow> 'v OfficialRow \<Rightarrow> jsnum list" where
  "extractNumbers h row =
     (let nFields = filter (\<lambda>n. js_le (JNum 1) n \<and> js_le n (JNum 49))
                      (List.map_filter (\<lambda>f. toInt h (row f))
                         [js ''n1'', js ''n2'', js ''n3'', js ''n4'', js ''n5'', js ''n6'',
                          js ''no1'', js ''no2'', js ''no3'', js ''no4'', js ''no5'', js ''no6''])
      in if length nFields \<ge> 6 then take 6 nFields
         else (case find (\<lambda>nums. length nums \<ge> 6)
                      (map (\<lambda>f. parseNumberList h (row f))
                         [js ''numbers'', js ''nos'', js ''no'', js ''result'', js ''main'']) of
                 Some nums \<Rightarrow> take 6 nums
               | None \<Rightarrow> []))"

definition extractSpecial :: "'v host \<Rightarrow> 'v OfficialRow \<Rightarrow> jsnum option" where
  "extractSpecial h row =
     (case first_some (\<lambda>f. case toInt h (row f) of
                              None \<Rightarrow> None
                            | Some n \<Rightarrow> if js_le (JNum 1) n \<and> js_le n (JNum 49) then Some n
                                        else None)
             [js ''specialNumber'', js ''special'', js ''sno'', js ''sn'', js ''bonus'',
              js ''extra'', js ''n7'', js ''no7''] of
        Some n \<Rightarrow> Some n
      | None \<Rightarrow>
          (case find (\<lambda>arr. length arr \<ge> 7)
                  (map (\<lambda>f. parseNumberList h (row f)) [js ''result'', js ''no'', js ''numbers'']) of
             Some arr \<Rightarrow> at_index arr 6
           | None \<Rightarrow> None))"

text \<open>The body of the loop over the rows in \<open>loadOfficialRecords\<close>: the record pushed, or
  \<open>None\<close> on \<open>continue\<close>.\<close>

definition official_record :: "'v host \<Rightarrow> 'v OfficialRow \<Rightarrow> CsvDrawRecord option" where
  "official_record h row =
     (case (extractIssueNo h row, extractDate h row, extractSpecial h row) of
        (Some i, Some d, Some sp) \<Rightarrow>
          if length (extractNumbers h row) \<noteq> 6 then None
          else Some \<lparr>recIssueNo = i, recDrawDate = d, recNumbers = extractNumbers h row,
                     recSpecialNumber = sp\<rparr>
      | _ \<Rightarrow> None)"

text \<open>\<open>loadOfficialRecords\<close>, from the outcome of the fetch on: the error thrown when the
  response is not ok or its text is not JSON, or the rows that \<open>normalizeOfficialRows\<close>
  finds in the payload.\<close>

definition loadOfficialRecords ::
  "'v host \<Rightarrow> js_error + 'v OfficialRow list \<Rightarrow> js_error + CsvDrawRecord list" where
  "loadOfficialRecords h fetched =
     (case fetched of
        Inl e \<Rightarrow> Inl e
      | Inr rows \<Rightarrow>
          (let out = List.map_filter (official_record h) rows
           in if length out = 0
              then Inl (Error (js ''Official source parsed 0 records. Please verify OFFICIAL_RESULT_URL format.''))
              else Inr (sort_cmp by_date out)))"

subsection \<open>Choice of the provider\<close>

text \<open>\<open>loadDrawRecords\<close>. \<open>provider\<close> is the trimmed lower-case text of
  \<open>RESULT_PROVIDER\<close>; \<open>csvText\<close> is the outcome of reading the CSV text, from
  \<open>RESULT_CSV_URL\<close> when it is set and from the local file otherwise: the text, or the
  error thrown. The CSV text is read only on the paths that use it.\<close>

definition loadCsvRecords :: "'v host \<Rightarrow> js_error + jsstring \<Rightarrow> js_error + CsvDrawRecord list" where
  "loadCsvRecords h csvText = (case csvText of Inl e \<Rightarrow> Inl e | Inr raw \<Rightarrow> parseDrawCsv h raw)"

definition loadDrawRecords ::
  "'v host \<Rightarrow> jsstring \<Rightarrow> bool \<Rightarrow> js_error + 'v OfficialRow list \<Rightarrow> js_error + jsstring
   \<Rightarrow> js_error + CsvDrawRecord list" where
  "loadDrawRecords h provider officialRequired fetched csvText =
     (if provider = js ''official'' then loadOfficialRecords h fetched
      else if provider = js ''csv'' then loadCsvRecords h csvText
      else (case loadOfficialRecords h fetched of
              Inr records \<Rightarrow> Inr records
            | Inl e \<Rightarrow> if officialRequired then Inl e else loadCsvRecords h csvText))"

section \<open>Vocabulary and examples of the claims\<close>

subsection \<open>Vocabulary of the selection claims\<close>

text \<open>\<open>before a b\<close>: entry \<open>a\<close> comes before entry \<open>b\<close> in the candidate order, by
  higher score, and on equal scores by smaller number.\<close>

definition before :: "nat \<times> rat \<Rightarrow> nat \<times> rat \<Rightarrow> bool" where
  "before a b = (snd b < snd a \<or> (snd a = snd b \<and> fst a < fst b))"

definition has_odd :: "nat list \<Rightarrow> bool" where
  "has_odd ns = list_ex (\<lambda>n. n mod 2 = 1) ns"

definition has_even :: "nat list \<Rightarrow> bool" where
  "has_even ns = list_ex (\<lambda>n. n mod 2 \<noteq> 1) ns"

text \<open>The sorted entries whose number is not among the selected ones, in sorted order:
  what the fill loop chooses from.\<close>

definition unselected :: "nummap \<Rightarrow> nummap \<Rightarrow> nummap" where
  "unselected sel srt = filter (\<lambda>e. fst e \<notin> set (map fst sel)) srt"

subsection \<open>Vocabulary of the review claims\<close>






subsection \<open>Vocabulary of the audit claim\<close>








subsection \<open>Vocabulary of the source claims\<close>

text \<open>An integer from 1 to 49; and a record with exactly six numbers, each of them and
  the special number an integer from 1 to 49.\<close>

definition draw_number :: "jsnum \<Rightarrow> bool" where
  "draw_number n = (n \<in> set (map (\<lambda>k. JNum (of_nat k)) ALL_NUMBERS))"

definition in_range_record :: "CsvDrawRecord \<Rightarrow> bool" where
  "in_range_record r =
     (length (recNumbers r) = 6 \<and> list_all draw_number (recNumbers r)
      \<and> draw_number (recSpecialNumber r))"

subsection \<open>Example inputs\<close>

text \<open>A score map over 1..49 whose 24 highest scores belong to the even numbers; a
  score map of six even numbers only; and a window of two draws, most recent draw
  first.\<close>

definition evens_first :: nummap where
  "evens_first = map (\<lambda>n. (n, if n mod 2 = 0 then 1 else 0)) ALL_NUMBERS"

definition six_evens :: nummap where
  "six_evens = [(2, 6), (4, 5), (6, 4), (8, 3), (10, 2), (12, 1)]"

definition example_window :: "Draw list" where
  "example_window =
     [\<lparr>drawId = 2, issueNo = js ''25/002'', drawDate = 2, numbersJson = [1, 2, 3, 4, 5, 6], specialNumber = 7\<rparr>,
      \<lparr>drawId = 1, issueNo = js ''25/001'', drawDate = 1, numbersJson = [5, 6, 7, 8, 9, 10], specialNumber = 11\<rparr>]"

text \<open>Rounding to the nearest double (ties to even), on the values that the engine meets
  on \<open>example_window\<close> under \<open>hot_v1\<close>: the rationals listed are the results that are not
  doubles, each with the double nearest to it (\<open>4 / 5\<close> and \<open>1 / 5\<close> are the literals
  \<open>0.8\<close> and \<open>0.2\<close>); every other value met there is a double and is left as it is.\<close>

definition example_rounding :: "rat \<Rightarrow> rat" where
  "example_rounding x =
     (case map_of
        [(2 / 3, 6004799503160661 / 9007199254740992),
         (1 / 3, 6004799503160661 / 18014398509481984),
         (4 / 5, 3602879701896397 / 4503599627370496),
         (1 / 5, 3602879701896397 / 18014398509481984),
         (21634570243895115118877068038417 / 162259276829213363391578010288128,
          4803839602528529 / 36028797018963968),
         (19215358410114117 / 36028797018963968, 4803839602528529 / 9007199254740992),
         (18014398509481985 / 18014398509481984, 1),
         (21634570243895115118877068038417 / 324518553658426726783156020576256,
          4803839602528529 / 72057594037927936),
         (33626877217699705 / 72057594037927936, 4203359652212463 / 9007199254740992)] x of
        None \<Rightarrow> x
      | Some y \<Rightarrow> y)"








text \<open>A host for the examples: \<open>Number\<close> as modelled above, the two dates of the
  examples with their times and no other date, values that are strings, and a CSV parser
  that finds the rows below in the texts \<open>first\<close> and \<open>second\<close> and no row elsewhere.\<close>

definition good_row :: csvrow where
  "good_row =
     [([0x671F, 0x53F7], js ''25/001''), ([0x65E5, 0x671F], js ''2025-01-02''),
      ([0x4E2D, 0x5956, 0x53F7, 0x7801], js ''3,8,12,27,33,45''),
      ([0x7279, 0x522B, 0x53F7, 0x7801], js ''19'')]"

definition repeated_row :: csvrow where
  "repeated_row =
     [([0x671F, 0x53F7], js ''25/002''), ([0x65E5, 0x671F], js ''2025-01-04''),
      ([0x4E2D, 0x5956, 0x53F7, 0x7801], js ''3,3,3,3,3,3''),
      ([0x7279, 0x522B, 0x53F7, 0x7801], js ''3'')]"

definition short_row :: csvrow where
  "short_row =
     [([0x671F, 0x53F7], js ''25/003''), ([0x65E5, 0x671F], js ''2025-01-04''),
      ([0x4E2D, 0x5956, 0x53F7, 0x7801], js ''3,8,12''),
      ([0x7279, 0x522B, 0x53F7, 0x7801], js ''19'')]"

definition example_host :: "jsstring host" where
  "example_host =
     \<lparr>to_number = js_Number,
      date_time = (\<lambda>t. if t = js ''2025-01-02T12:00:00Z'' then Some 1735819200000
                         else if t = js ''2025-01-04T12:00:00Z'' then Some 1735992000000
                         else None),
      utc_time = (\<lambda>y m d. None),
      to_text = (\<lambda>v. v),
      string_value = (\<lambda>v. Some v),
      csv_parse = (\<lambda>raw. if raw = js ''first'' then Inr [repeated_row, short_row, good_row]
                            else if raw = js ''second'' then Inr [short_row]
                            else Inr [])\<rparr>"

text \<open>Official rows: one with six different numbers and another special number, one
  with the number 7 in every field, and one with no numbers.\<close>

definition fields :: "(string \<times> string) list \<Rightarrow> jsstring OfficialRow" where
  "fields kvs = map_of (map (\<lambda>(k, v). (js k, js v)) kvs)"

definition good_official :: "jsstring OfficialRow" where
  "good_official =
     fields [(''id'', ''25/001''), (''date'', ''2025-01-02''),
             (''numbers'', ''3+8+12+27+33+45''), (''sno'', ''19'')]"

definition repeated_official :: "jsstring OfficialRow" where
  "repeated_official =
     fields [(''id'', ''25/002''), (''date'', ''2025-01-04''),
             (''n1'', ''7''), (''n2'', ''7''), (''n3'', ''7''), (''n4'', ''7''), (''n5'', ''7''),
             (''n6'', ''7''), (''n7'', ''7'')]"

definition empty_official :: "jsstring OfficialRow" where
  "empty_official = fields [(''id'', ''25/003''), (''date'', ''2025-01-04'')]"

section \<open>Properties of the strategy engine\<close>

lemma set_insort_cmp: "set (insort_cmp cmp x ys) = insert x (set ys)"
  by (induction ys) auto

lemma set_sort_cmp: "set (sort_cmp cmp xs) = set xs"
  by (induction xs) (auto simp: sort_cmp_def set_insort_cmp)

lemma length_insort_cmp: "length (insort_cmp cmp x ys) = Suc (length ys)"
  by (induction ys) auto

lemma length_sort_cmp: "length (sort_cmp cmp xs) = length xs"
  by (induction xs) (auto simp: sort_cmp_def length_insort_cmp)

lemma count_insort_cmp:
  "length (filter P (insort_cmp cmp x ys)) = length (filter P (x # ys))"
  by (induction ys) auto

lemma count_sort_cmp: "length (filter P (sort_cmp cmp xs)) = length (filter P xs)"
proof (induction xs)
  case Nil
  show ?case by (simp add: sort_cmp_def)
next
  case (Cons x xs)
  have "sort_cmp cmp (x # xs) = insort_cmp cmp x (sort_cmp cmp xs)"
    by (simp add: sort_cmp_def)
  then show ?case using Cons by (simp add: count_insort_cmp)
qed

lemma before_trans: "before a b \<Longrightarrow> before b c \<Longrightarrow> before a c"
  by (auto simp: before_def)

lemma sorted_insort_desc:
  "sorted_wrt before ys \<Longrightarrow> list_all (\<lambda>y. fst x < fst y) ys \<Longrightarrow>
   sorted_wrt before (insort_cmp (\<lambda>a b. snd b - snd a) x ys)"
proof (induction ys)
  case Nil
  show ?case by simp
next
  case (Cons y ys)
  show ?case
  proof (cases "snd y - snd x \<le> 0")
    case True
    then have xy: "before x y" using Cons.prems(2) by (auto simp: before_def)
    have "\<forall>z\<in>set ys. before x z"
      using Cons.prems(1) xy before_trans by auto
    with True xy Cons.prems(1) show ?thesis by simp
  next
    case False
    then have yx: "before y x" by (auto simp: before_def)
    have "sorted_wrt before (insort_cmp (\<lambda>a b. snd b - snd a) x ys)"
      using Cons by simp
    with False yx Cons.prems(1) show ?thesis by (auto simp: set_insort_cmp)
  qed
qed

lemma sorted_sort_desc:
  "sorted_wrt (<) (map fst xs) \<Longrightarrow> sorted_wrt before (sort_cmp (\<lambda>a b. snd b - snd a) xs)"
proof (induction xs)
  case Nil
  show ?case by (simp add: sort_cmp_def)
next
  case (Cons x xs)
  have step: "sort_cmp (\<lambda>a b. snd b - snd a) (x # xs) =
              insort_cmp (\<lambda>a b. snd b - snd a) x (sort_cmp (\<lambda>a b. snd b - snd a) xs)"
    by (simp add: sort_cmp_def)
  have "list_all (\<lambda>y. fst x < fst y) (sort_cmp (\<lambda>a b. snd b - snd a) xs)"
    using Cons.prems by (auto simp: list_all_iff set_sort_cmp)
  moreover have "sorted_wrt before (sort_cmp (\<lambda>a b. snd b - snd a) xs)"
    using Cons by simp
  ultimately show ?case unfolding step by (rule sorted_insort_desc[rotated])
qed

lemma greedy_prefix: "\<exists>ys. greedy xs sel = sel @ ys \<and> subseq ys xs"
proof (induction xs arbitrary: sel)
  case Nil
  show ?case by simp
next
  case (Cons item rest)
  obtain ys1 where 1: "greedy rest sel = sel @ ys1" "subseq ys1 rest"
    using Cons[of sel] by blast
  obtain ys2 where 2: "greedy rest (sel @ [item]) = (sel @ [item]) @ ys2" "subseq ys2 rest"
    using Cons[of "sel @ [item]"] by blast
  have a: "subseq ys1 (item # rest)" using 1(2) by (rule list_emb_Cons)
  have b: "subseq (item # ys2) (item # rest)" using 2(2) by simp
  show ?case
    using 1(1) 2(1) a b by (auto simp: Let_def)
qed

lemma oddCount_zero: "length (filter (\<lambda>n. n mod 2 = 1) ns) = 0 \<longleftrightarrow> \<not> has_odd ns"
  by (simp add: has_odd_def list_ex_iff filter_empty_conv)

lemma oddCount_all: "length (filter (\<lambda>n::nat. n mod 2 = 1) ns) = length ns \<longleftrightarrow> \<not> has_even ns"
proof -
  have "length (filter (\<lambda>n::nat. n mod 2 = 1) ns) = length ns \<longleftrightarrow> filter (\<lambda>n. n mod 2 = 1) ns = ns"
    by (metis length_filter_less filter_id_conv less_irrefl)
  then show ?thesis by (auto simp: has_even_def list_ex_iff filter_id_conv)
qed

lemma greedy_step:
  "greedy (item # rest) sel =
     (if length sel = 6 then sel
      else if 3 \<le> length sel \<and> (\<not> has_odd (map fst (sel @ [item])) \<or> \<not> has_even (map fst (sel @ [item])))
           then greedy rest sel
           else greedy rest (sel @ [item]))"
proof -
  have len: "(4 \<le> length (map fst (sel @ [item]))) = (3 \<le> length sel)" by auto
  show ?thesis
    by (simp only: greedy.simps Let_def oddCount_zero oddCount_all len)
qed

declare greedy.simps(2) [simp del]

lemma greedy_mixed:
  "has_odd (map fst sel) \<Longrightarrow> has_even (map fst sel) \<Longrightarrow> length sel \<le> 6 \<Longrightarrow>
   greedy xs sel = sel @ take (6 - length sel) xs"
proof (induction xs arbitrary: sel)
  case Nil
  show ?case by simp
next
  case (Cons item rest)
  show ?case
  proof (cases "length sel = 6")
    case True
    then show ?thesis by (simp add: greedy_step)
  next
    case False
    let ?next = "map fst (sel @ [item])"
    have o: "has_odd ?next" using Cons.prems(1) by (auto simp: has_odd_def list_ex_iff)
    have e: "has_even ?next" using Cons.prems(2) by (auto simp: has_even_def list_ex_iff)
    have len: "length (sel @ [item]) \<le> 6" using False Cons.prems(3) by simp
    have "greedy (item # rest) sel = greedy rest (sel @ [item])"
      using False o e by (simp only: greedy_step if_False simp_thms)
    also have "\<dots> = (sel @ [item]) @ take (6 - length (sel @ [item])) rest"
      using Cons.IH[OF o e len] .
    also have "\<dots> = sel @ take (6 - length sel) (item # rest)"
      using False Cons.prems(3) by (simp add: take_Cons' Suc_diff_Suc)
    finally show ?thesis .
  qed
qed

text \<open>three of one parity selected: the walk skips that parity and takes the first of the other\<close>
lemma greedy_three_same:
  assumes "length sel = 3"
    and "\<not> has_odd (map fst sel) \<or> \<not> has_even (map fst sel)"
    and "\<not> has_odd (map fst sel) \<Longrightarrow> 3 \<le> length (filter (\<lambda>p. fst p mod 2 = 1) xs)"
    and "\<not> has_even (map fst sel) \<Longrightarrow> 3 \<le> length (filter (\<lambda>p. fst p mod 2 \<noteq> 1) xs)"
  shows "length (greedy xs sel) = 6 \<and> has_odd (map fst (take 4 (greedy xs sel)))
         \<and> has_even (map fst (take 4 (greedy xs sel)))"
  using assms
proof (induction xs)
  case Nil
  then show ?case by auto
next
  case (Cons item rest)
  let ?next = "map fst (sel @ [item])"
  show ?case
  proof (cases "has_odd ?next \<and> has_even ?next")
    case True
    have len: "length (sel @ [item]) \<le> 6" using Cons.prems(1) by simp
    have g: "greedy (item # rest) sel = (sel @ [item]) @ take 2 rest"
      using True Cons.prems(1) greedy_mixed[of "sel @ [item]" rest]
      by (simp add: greedy_step)
    have "2 \<le> length rest"
    proof (cases "has_odd (map fst sel)")
      case True
      then have ne: "\<not> has_even (map fst sel)" using Cons.prems(2) by simp
      from Cons.prems(4)[OF ne] have "2 \<le> length (filter (\<lambda>p. fst p mod 2 \<noteq> 1) rest)"
        by (simp split: if_splits)
      then show ?thesis using length_filter_le[of "\<lambda>p. fst p mod 2 \<noteq> 1" rest] by linarith
    next
      case False
      from Cons.prems(3)[OF False] have "2 \<le> length (filter (\<lambda>p. fst p mod 2 = 1) rest)"
        by (simp split: if_splits)
      then show ?thesis using length_filter_le[of "\<lambda>p. fst p mod 2 = 1" rest] by linarith
    qed
    then have "length (greedy (item # rest) sel) = 6" using g Cons.prems(1) by simp
    moreover have "take 4 (greedy (item # rest) sel) = sel @ [item]"
      using g Cons.prems(1) by simp
    ultimately show ?thesis using True by simp
  next
    case False
    have g: "greedy (item # rest) sel = greedy rest sel"
      using False Cons.prems(1) by (simp add: greedy_step)
    obtain a b where p: "(a, b) \<in> set sel" using Cons.prems(1) by (cases sel) auto
    have 3: "\<not> has_odd (map fst sel) \<Longrightarrow> 3 \<le> length (filter (\<lambda>p. fst p mod 2 = 1) rest)"
      using Cons.prems(3) False p
      by (auto simp: has_odd_def has_even_def list_ex_iff split: if_splits)
    have 4: "\<not> has_even (map fst sel) \<Longrightarrow> 3 \<le> length (filter (\<lambda>p. fst p mod 2 \<noteq> 1) rest)"
      using Cons.prems(4) False p
      by (auto simp: has_odd_def has_even_def list_ex_iff split: if_splits)
    show ?thesis unfolding g using Cons.IH[OF Cons.prems(1) Cons.prems(2) 3 4] by simp
  qed
qed


lemma greedy_first_three:
  "greedy (a # b # c # rest) [] = greedy rest [a, b, c]"
  by (simp add: greedy_step)

lemma count_odd_ALL: "length (filter (\<lambda>n. n mod 2 = 1) ALL_NUMBERS) = 25"
  by code_simp

lemma count_even_ALL: "length (filter (\<lambda>n. n mod 2 \<noteq> 1) ALL_NUMBERS) = 24"
  by code_simp

lemma length_ALL: "length ALL_NUMBERS = 49"
  by (simp add: ALL_NUMBERS_def)

lemma list_ex_take_mono:
  "list_ex P (map f (take j xs)) \<Longrightarrow> j \<le> k \<Longrightarrow> list_ex P (map f (take k xs))"
  unfolding list_ex_iff using set_take_subset_set_take[of j k xs] by auto

lemma has_odd_mono: "has_odd (map fst (take j xs)) \<Longrightarrow> j \<le> k \<Longrightarrow> has_odd (map fst (take k xs))"
  unfolding has_odd_def by (rule list_ex_take_mono)

lemma has_even_mono: "has_even (map fst (take j xs)) \<Longrightarrow> j \<le> k \<Longrightarrow> has_even (map fst (take k xs))"
  unfolding has_even_def by (rule list_ex_take_mono)

lemma count_keys: "length (filter P (map fst xs)) = length (filter (\<lambda>p. P (fst p)) xs)"
  by (induction xs) auto

lemma greedy_all_numbers:
  assumes keys: "map fst scores = ALL_NUMBERS"
  defines "srt \<equiv> sort_cmp (\<lambda>a b. snd b - snd a) scores"
  shows "length (greedy srt []) = 6"
    and "take 3 (greedy srt []) = take 3 srt"
    and "has_odd (map fst (take 4 (greedy srt [])))"
    and "has_even (map fst (take 4 (greedy srt [])))"
proof -
  have len: "length srt = 49"
    using keys length_ALL length_sort_cmp[of _ scores] by (metis length_map srt_def)
  then obtain a b c rest where srt: "srt = a # b # c # rest"
    by (cases srt; cases "tl srt"; cases "tl (tl srt)") auto
  have lrest: "length rest = 46" using len srt by simp
  have g: "greedy srt [] = greedy rest [a, b, c]"
    by (simp add: srt greedy_first_three)
  have odd_scores: "length (filter (\<lambda>p. fst p mod 2 = 1) scores) = 25"
    using count_odd_ALL count_keys[of "\<lambda>n. n mod 2 = 1" scores] by (simp only: keys)
  have even_scores: "length (filter (\<lambda>p. fst p mod 2 \<noteq> 1) scores) = 24"
    using count_even_ALL count_keys[of "\<lambda>n. n mod 2 \<noteq> 1" scores] by (simp only: keys)
  have odd_rest: "3 \<le> length (filter (\<lambda>p. fst p mod 2 = 1) rest)"
    using count_sort_cmp[of "\<lambda>p. fst p mod 2 = 1" "\<lambda>a b. snd b - snd a" scores] odd_scores
    unfolding srt_def[symmetric] srt by (simp split: if_splits)
  have even_rest: "3 \<le> length (filter (\<lambda>p. fst p mod 2 \<noteq> 1) rest)"
    using count_sort_cmp[of "\<lambda>p. fst p mod 2 \<noteq> 1" "\<lambda>a b. snd b - snd a" scores] even_scores
    unfolding srt_def[symmetric] srt by (simp split: if_splits)
  have all: "length (greedy rest [a, b, c]) = 6 \<and> take 3 (greedy rest [a, b, c]) = [a, b, c]
        \<and> has_odd (map fst (take 4 (greedy rest [a, b, c])))
        \<and> has_even (map fst (take 4 (greedy rest [a, b, c])))"
  proof (cases "has_odd (map fst [a, b, c]) \<and> has_even (map fst [a, b, c])")
    case True
    then have e: "greedy rest [a, b, c] = [a, b, c] @ take 3 rest"
      using greedy_mixed[of "[a, b, c]" rest] by simp
    have "has_odd (map fst (take 3 (greedy rest [a, b, c])))"
         "has_even (map fst (take 3 (greedy rest [a, b, c])))"
      using True e by simp_all
    then have "has_odd (map fst (take 4 (greedy rest [a, b, c])))"
         "has_even (map fst (take 4 (greedy rest [a, b, c])))"
      using has_odd_mono[of 3 _ 4] has_even_mono[of 3 _ 4] by simp_all
    then show ?thesis using e lrest by simp
  next
    case False
    then have ne: "\<not> has_odd (map fst [a, b, c]) \<or> \<not> has_even (map fst [a, b, c])" by simp
    obtain ys where ys: "greedy rest [a, b, c] = [a, b, c] @ ys"
      using greedy_prefix[of rest "[a, b, c]"] by blast
    show ?thesis
      using greedy_three_same[of "[a, b, c]" rest, OF _ ne] odd_rest even_rest ys by simp
  qed
  show "length (greedy srt []) = 6" using all g by simp
  show "take 3 (greedy srt []) = take 3 srt" using all g srt by simp
  show "has_odd (map fst (take 4 (greedy srt [])))" using all g by simp
  show "has_even (map fst (take 4 (greedy srt [])))" using all g by simp
qed


lemma fill_full: "6 \<le> length sel \<Longrightarrow> fill srt sel = sel"
  by simp

lemma picks_number: "map number (pickTopSix scores p) = map fst (pickTopSix_selected scores)"
  by (simp add: pickTopSix_def Let_def case_prod_unfold comp_def flip: map_map[of fst fst, unfolded comp_def])

lemma picks_score: "map score (pickTopSix scores p) = map snd (pickTopSix_selected scores)"
  by (simp add: pickTopSix_def Let_def case_prod_unfold comp_def flip: map_map[of snd fst, unfolded comp_def])

lemma picks_rank: "map rank (pickTopSix scores p) = map Suc [0..<length (pickTopSix_selected scores)]"
  by (simp add: pickTopSix_def Let_def case_prod_unfold comp_def flip: map_map[of Suc snd, unfolded comp_def])

lemma picks_reason:
  "map reason (pickTopSix scores p) =
   map (\<lambda>e. p @ js '' score='' @ toFixed 4 (snd e)) (pickTopSix_selected scores)"
  by (simp add: pickTopSix_def Let_def case_prod_unfold comp_def
      flip: map_map[of "\<lambda>e. p @ js '' score='' @ toFixed 4 (snd e)" fst, unfolded comp_def])

lemma picks_length: "length (pickTopSix scores p) = length (pickTopSix_selected scores)"
  by (simp add: pickTopSix_def Let_def)

lemma selected_all_numbers:
  assumes "map fst scores = ALL_NUMBERS"
  shows "pickTopSix_selected scores = greedy (pickTopSix_sorted scores) []"
  using greedy_all_numbers(1)[OF assms]
  by (simp add: pickTopSix_selected_def pickTopSix_sorted_def Let_def del: fill.simps add: fill_full)

lemma subseq_set_subset: "subseq xs ys \<Longrightarrow> set xs \<subseteq> set ys"
  by (auto elim: list_emb_set)

lemma sorted_wrt_subseq: "subseq ys xs \<Longrightarrow> sorted_wrt R xs \<Longrightarrow> sorted_wrt R ys"
proof (induction ys xs rule: list_emb.induct)
  case (list_emb_Nil ys)
  show ?case by simp
next
  case (list_emb_Cons xs ys y)
  then show ?case by simp
next
  case (list_emb_Cons2 x y xs ys)
  have "set xs \<subseteq> set ys" using list_emb_Cons2.hyps(2) by (rule subseq_set_subset)
  with list_emb_Cons2 show ?case by auto
qed

lemma distinct_keys_insort_cmp:
  "distinct (map f (insort_cmp cmp x ys)) = distinct (map f (x # ys))"
  by (induction ys) (auto simp: set_insort_cmp)

lemma distinct_keys_sort_cmp:
  "distinct (map f (sort_cmp cmp xs)) = distinct (map f xs)"
proof (induction xs)
  case Nil
  show ?case by (simp add: sort_cmp_def)
next
  case (Cons x xs)
  have "sort_cmp cmp (x # xs) = insort_cmp cmp x (sort_cmp cmp xs)"
    by (simp add: sort_cmp_def)
  then show ?case using Cons by (simp add: distinct_keys_insort_cmp set_sort_cmp)
qed

lemma sorted_wrt_ALL: "sorted_wrt (<) ALL_NUMBERS"
  by (simp add: ALL_NUMBERS_def sorted_wrt_map)

lemma distinct_ALL: "distinct ALL_NUMBERS"
  by (simp add: ALL_NUMBERS_def distinct_map)

lemma picks_nth:
  "i < length (pickTopSix_selected scores) \<Longrightarrow>
   pickTopSix scores p ! i =
     \<lparr>number = fst (pickTopSix_selected scores ! i), rank = i + 1,
      score = snd (pickTopSix_selected scores ! i),
      reason = p @ js '' score='' @ toFixed 4 (snd (pickTopSix_selected scores ! i))\<rparr>"
  by (simp add: pickTopSix_def Let_def case_prod_unfold)

lemma find_filter_split:
  "distinct (map fst xs) \<Longrightarrow> find P xs = Some fb \<Longrightarrow>
   filter P xs = fb # filter (\<lambda>e. P e \<and> fst e \<noteq> fst fb) xs"
proof (induction xs)
  case Nil
  then show ?case by simp
next
  case (Cons x xs)
  show ?case
  proof (cases "P x")
    case True
    then have fb: "fb = x" using Cons.prems(2) by simp
    have "fst x \<notin> fst ` set xs" using Cons.prems(1) by simp
    then have "\<forall>e\<in>set xs. fst e \<noteq> fst x" by (metis imageI)
    then have "filter (\<lambda>e. P e \<and> fst e \<noteq> fst x) xs = filter P xs"
      by (auto intro: filter_cong)
    then show ?thesis using True fb by simp
  next
    case False
    then show ?thesis using Cons by simp
  qed
qed

lemma fill_pred: "(\<lambda>(n, s). \<not> list_ex (\<lambda>(picked, s'). picked = n) sel) = (\<lambda>e. fst e \<notin> set (map fst sel))"
  by (force simp: list_ex_iff fun_eq_iff)

lemma fill_unselected:
  "distinct (map fst srt) \<Longrightarrow> fill srt sel = sel @ take (6 - length sel) (unselected sel srt)"
proof (induction srt sel rule: fill.induct)
  case (1 srt sel)
  show ?case
  proof (cases "length sel < 6")
    case False
    then show ?thesis by simp
  next
    case True
    show ?thesis
    proof (cases "find (\<lambda>e. fst e \<notin> set (map fst sel)) srt")
      case None
      then have "unselected sel srt = []"
        by (force simp: unselected_def find_None_iff filter_empty_conv)
      then show ?thesis using True None by (subst fill.simps) (simp add: fill_pred)
    next
      case (Some fb)
      have split: "unselected sel srt = fb # unselected (sel @ [fb]) srt"
        using find_filter_split[OF "1.prems" Some] by (simp add: unselected_def conj_commute)
      have "fill srt sel = fill srt (sel @ [fb])"
        using True Some by (subst fill.simps) (simp add: fill_pred)
      also have "\<dots> = (sel @ [fb]) @ take (6 - length (sel @ [fb])) (unselected (sel @ [fb]) srt)"
        using "1.IH"[OF True _ "1.prems", of fb] Some by (simp add: fill_pred)
      also have "\<dots> = sel @ take (6 - length sel) (unselected sel srt)"
        using True split by (simp add: take_Cons' Suc_diff_Suc)
      finally show ?thesis .
    qed
  qed
qed

subsection \<open>Selection\<close>

lemma floor_rat_numeral_div: "\<lfloor>(numeral a :: rat) / numeral b\<rfloor> = numeral a div numeral b"
  using floor_divide_of_int_eq[of "numeral a" "numeral b", where ?'a = rat] by simp

lemma dec_digits_small: "n < 10 \<Longrightarrow> dec_digits n = [48 + n]"
  by simp

lemma dec_digits_large: "10 \<le> n \<Longrightarrow> dec_digits n = dec_digits (n div 10) @ [48 + n mod 10]"
  by (subst dec_digits.simps) simp

declare dec_digits.simps [simp del]

lemmas toFixed_eval = toFixed_def js_def Let_def dec_digits_small dec_digits_large floor_rat_numeral_div

lemma sorted_all_numbers:
  assumes "map fst scores = ALL_NUMBERS"
  shows "sorted_wrt before (pickTopSix_sorted scores)"
  unfolding pickTopSix_sorted_def
  using sorted_sort_desc[of scores] sorted_wrt_ALL assms by simp

lemma selected_subseq:
  assumes "map fst scores = ALL_NUMBERS"
  shows "subseq (pickTopSix_selected scores) (pickTopSix_sorted scores)"
  using greedy_prefix[of "pickTopSix_sorted scores" "[]"] selected_all_numbers[OF assms] by auto

lemma selected_length:
  assumes "map fst scores = ALL_NUMBERS"
  shows "length (pickTopSix_selected scores) = 6"
  using greedy_all_numbers(1)[OF assms] selected_all_numbers[OF assms]
  by (simp add: pickTopSix_sorted_def)

lemma upt_six: "map Suc [0..<6] = [1, 2, 3, 4, 5, 6]"
  by (simp add: upt_rec)

lemma sorted_head_max:
  assumes "sorted_wrt before (e # es)"
  shows "snd e = Max (snd ` set (e # es))"
proof -
  have "\<forall>x\<in>set es. snd x \<le> snd e" using assms by (auto simp: before_def)
  then show ?thesis by (intro Max_eqI[symmetric]) auto
qed

text \<open>
  Claim C10. For every composite score map over 1..49 (one entry per number of
  \<open>ALL_NUMBERS\<close>, in that order), the picks at ranks 1, 2 and 3 are exactly the three
  first candidates of the sorted candidate order, with their scores: the parity skip is
  only tried once the tentative selection has four members, so it can only change ranks 4
  to 6. The rank-1 pick carries the maximal composite score.
\<close>

theorem C10_top_three:
  assumes "map fst scores = ALL_NUMBERS"
  shows "map number (take 3 (pickTopSix scores p)) = map fst (take 3 (pickTopSix_sorted scores))
       \<and> map score (take 3 (pickTopSix scores p)) = map snd (take 3 (pickTopSix_sorted scores))
       \<and> map rank (take 3 (pickTopSix scores p)) = [1, 2, 3]
       \<and> rank (hd (pickTopSix scores p)) = 1
       \<and> score (hd (pickTopSix scores p)) = Max (snd ` set scores)"
proof -
  let ?srt = "pickTopSix_sorted scores" and ?sel = "pickTopSix_selected scores"
  let ?picks = "pickTopSix scores p"
  have t3: "take 3 ?sel = take 3 ?srt"
    using greedy_all_numbers(2)[OF assms] selected_all_numbers[OF assms]
    by (simp add: pickTopSix_sorted_def)
  have len: "length ?sel = 6" by (rule selected_length[OF assms])
  have "map number (take 3 ?picks) = take 3 (map number ?picks)" by (simp add: take_map)
  also have "\<dots> = map fst (take 3 ?sel)" by (simp add: picks_number take_map)
  finally have n: "map number (take 3 ?picks) = map fst (take 3 ?srt)" by (simp only: t3)
  have "map score (take 3 ?picks) = take 3 (map score ?picks)" by (simp add: take_map)
  also have "\<dots> = map snd (take 3 ?sel)" by (simp add: picks_score take_map)
  finally have s: "map score (take 3 ?picks) = map snd (take 3 ?srt)" by (simp only: t3)
  have r: "map rank ?picks = [1, 2, 3, 4, 5, 6]"
    using picks_rank[of scores p] len upt_six by simp
  have "map rank (take 3 ?picks) = take 3 (map rank ?picks)" by (simp add: take_map)
  then have r3: "map rank (take 3 ?picks) = [1, 2, 3]" by (simp only: r) simp
  have pne: "?picks \<noteq> []" using picks_length[of scores p] len by auto
  have r1: "rank (hd ?picks) = 1" using r pne by (cases ?picks) auto
  have srt_len: "length ?srt = 49"
    using assms length_ALL length_sort_cmp[of _ scores]
    by (metis length_map pickTopSix_sorted_def)
  then obtain e es where srt: "?srt = e # es" by (cases ?srt) auto
  have "score (hd ?picks) = snd (hd ?sel)"
    using picks_score[of scores p] pne by (cases ?picks; cases ?sel) auto
  also have "\<dots> = snd e" using t3 srt len by (cases ?sel) auto
  also have "\<dots> = Max (snd ` set ?srt)"
    using sorted_head_max[of e es] sorted_all_numbers[OF assms] srt by simp
  also have "set ?srt = set scores" by (simp add: pickTopSix_sorted_def set_sort_cmp)
  finally show ?thesis using n s r3 r1 by simp
qed

lemma ev: "evens_first = [(1,0),(2,1),(3,0),(4,1),(5,0),(6,1),(7,0),(8,1),(9,0),(10,1),
  (11,0),(12,1),(13,0),(14,1),(15,0),(16,1),(17,0),(18,1),(19,0),(20,1),
  (21,0),(22,1),(23,0),(24,1),(25,0),(26,1),(27,0),(28,1),(29,0),(30,1),
  (31,0),(32,1),(33,0),(34,1),(35,0),(36,1),(37,0),(38,1),(39,0),(40,1),
  (41,0),(42,1),(43,0),(44,1),(45,0),(46,1),(47,0),(48,1),(49,0)]"
  by (simp add: evens_first_def ALL_NUMBERS_def upt_rec)


lemma evens_first_sorted: "pickTopSix_sorted evens_first = 
  [(2,1),(4,1),(6,1),(8,1),(10,1),(12,1),(14,1),(16,1),(18,1),(20,1),(22,1),(24,1),(26,1),(28,1),(30,1),
   (32,1),(34,1),(36,1),(38,1),(40,1),(42,1),(44,1),(46,1),(48,1),
   (1,0),(3,0),(5,0),(7,0),(9,0),(11,0),(13,0),(15,0),(17,0),(19,0),(21,0),(23,0),(25,0),(27,0),(29,0),
   (31,0),(33,0),(35,0),(37,0),(39,0),(41,0),(43,0),(45,0),(47,0),(49,0)]"
  unfolding ev pickTopSix_sorted_def sort_cmp_def by simp

lemma evens_first_selected: "pickTopSix_selected evens_first = [(2,1),(4,1),(6,1),(1,0),(3,0),(5,0)]"
  unfolding pickTopSix_selected_def evens_first_sorted Let_def
  by (simp add: greedy_step has_odd_def has_even_def)

lemma evens_first_picks: "map number (pickTopSix evens_first []) = [2, 4, 6, 1, 3, 5]"
  by (simp add: picks_number evens_first_selected)

lemma distinct_subseq: "subseq ys xs \<Longrightarrow> distinct xs \<Longrightarrow> distinct ys"
proof (induction ys xs rule: list_emb.induct)
  case (list_emb_Nil ys)
  show ?case by simp
next
  case (list_emb_Cons xs ys y)
  then show ?case by simp
next
  case (list_emb_Cons2 x y xs ys)
  have "set xs \<subseteq> set ys" using list_emb_Cons2.hyps(2) by (rule subseq_set_subset)
  with list_emb_Cons2 show ?case by auto
qed

lemma greedy_invariant:
  assumes "\<forall>k. 4 \<le> k \<and> k \<le> length sel \<longrightarrow>
             has_odd (map fst (take k sel)) \<and> has_even (map fst (take k sel))"
  shows "\<forall>k. 4 \<le> k \<and> k \<le> length (greedy xs sel) \<longrightarrow>
             has_odd (map fst (take k (greedy xs sel))) \<and> has_even (map fst (take k (greedy xs sel)))"
  using assms
proof (induction xs arbitrary: sel)
  case Nil
  then show ?case by simp
next
  case (Cons item rest)
  show ?case
  proof (cases "length sel = 6")
    case True
    then show ?thesis using Cons.prems by (simp add: greedy_step)
  next
    case False
    show ?thesis
    proof (cases "3 \<le> length sel \<and> (\<not> has_odd (map fst (sel @ [item])) \<or> \<not> has_even (map fst (sel @ [item])))")
      case True
      then have "greedy (item # rest) sel = greedy rest sel" using False by (simp add: greedy_step)
      then show ?thesis using Cons.IH[OF Cons.prems] by simp
    next
      case acc: False
      have g: "greedy (item # rest) sel = greedy rest (sel @ [item])"
        using False acc by (simp only: greedy_step if_False)
      have "\<forall>k. 4 \<le> k \<and> k \<le> length (sel @ [item]) \<longrightarrow>
             has_odd (map fst (take k (sel @ [item]))) \<and> has_even (map fst (take k (sel @ [item])))"
      proof (intro allI impI)
        fix k assume k: "4 \<le> k \<and> k \<le> length (sel @ [item])"
        show "has_odd (map fst (take k (sel @ [item]))) \<and> has_even (map fst (take k (sel @ [item])))"
        proof (cases "k \<le> length sel")
          case True
          then show ?thesis using Cons.prems k by simp
        next
          case False
          then have "k = length sel + 1" using k by simp
          then show ?thesis using acc k by auto
        qed
      qed
      from Cons.IH[OF this] show ?thesis unfolding g .
    qed
  qed
qed

lemma greedy_running_mixed:
  "list_all (\<lambda>k. has_odd (map fst (take k (greedy xs []))) \<and> has_even (map fst (take k (greedy xs []))))
     [4..<Suc (length (greedy xs []))]"
proof -
  have inv: "\<forall>k. 4 \<le> k \<and> k \<le> length (greedy xs []) \<longrightarrow>
             has_odd (map fst (take k (greedy xs []))) \<and> has_even (map fst (take k (greedy xs [])))"
    by (rule greedy_invariant) simp
  show ?thesis
    unfolding list_all_iff
  proof
    fix k assume "k \<in> set [4..<Suc (length (greedy xs []))]"
    then have "4 \<le> k \<and> k \<le> length (greedy xs [])" by auto
    then show "has_odd (map fst (take k (greedy xs []))) \<and> has_even (map fst (take k (greedy xs [])))"
      using inv by blast
  qed
qed

lemma equal_scores_order:
  assumes "sorted_wrt before srt" "i < length srt" "j < length srt"
    "snd (srt ! i) = snd (srt ! j)" "fst (srt ! i) < fst (srt ! j)"
  shows "i < j"
proof (rule ccontr)
  assume "\<not> i < j"
  then consider "i = j" | "j < i" by linarith
  then show False
  proof cases
    case 1
    then show ?thesis using assms(5) by simp
  next
    case 2
    then have "before (srt ! j) (srt ! i)" using assms(1,2) by (simp add: sorted_wrt_nth_less)
    then show ?thesis using assms(4,5) by (auto simp: before_def)
  qed
qed

text \<open>
  Claim C9. For every composite score map over 1..49, the candidate order is a
  rearrangement of the entries that is descending by composite score, with ties in
  ascending numeric order: of two entries with equal scores, the one with the smaller
  number stands earlier. The picks come in rank order from that candidate order, so of two
  selected numbers with equal scores the smaller has the better rank. (That the picks are
  a function of the window is the fact that \<open>pickTopSix\<close> is a function.)
\<close>

theorem C9_candidate_order:
  assumes "map fst scores = ALL_NUMBERS"
  shows "set (pickTopSix_sorted scores) = set scores
       \<and> sorted_wrt before (pickTopSix_sorted scores)
       \<and> (\<forall>i j. i < 49 \<and> j < 49
             \<and> snd (pickTopSix_sorted scores ! i) = snd (pickTopSix_sorted scores ! j)
             \<and> fst (pickTopSix_sorted scores ! i) < fst (pickTopSix_sorted scores ! j) \<longrightarrow> i < j)
       \<and> sorted_wrt (\<lambda>a b. rank a < rank b \<and> before (number a, score a) (number b, score b))
            (pickTopSix scores p)"
proof -
  let ?srt = "pickTopSix_sorted scores" and ?sel = "pickTopSix_selected scores"
  have srt_len: "length ?srt = 49"
    using assms length_ALL length_sort_cmp[of _ scores]
    by (metis length_map pickTopSix_sorted_def)
  have s: "sorted_wrt before ?srt" by (rule sorted_all_numbers[OF assms])
  have sel: "sorted_wrt before ?sel"
    using sorted_wrt_subseq[OF selected_subseq[OF assms] s] .
  have "sorted_wrt (\<lambda>a b. rank a < rank b \<and> before (number a, score a) (number b, score b))
            (pickTopSix scores p)"
    unfolding sorted_wrt_iff_nth_less
  proof (intro allI impI)
    fix i j assume ij: "i < j" and j: "j < length (pickTopSix scores p)"
    then have j': "j < length ?sel" and i': "i < length ?sel" by (simp_all add: picks_length)
    have "before (?sel ! i) (?sel ! j)" using sel ij j' by (simp add: sorted_wrt_nth_less)
    then show "rank (pickTopSix scores p ! i) < rank (pickTopSix scores p ! j) \<and>
       before (number (pickTopSix scores p ! i), score (pickTopSix scores p ! i))
              (number (pickTopSix scores p ! j), score (pickTopSix scores p ! j))"
      using ij by (simp add: picks_nth[OF i'] picks_nth[OF j'])
  qed
  moreover have "\<forall>i j. i < 49 \<and> j < 49
             \<and> snd (?srt ! i) = snd (?srt ! j) \<and> fst (?srt ! i) < fst (?srt ! j) \<longrightarrow> i < j"
  proof (intro allI impI)
    fix i j
    assume a: "i < 49 \<and> j < 49 \<and> snd (?srt ! i) = snd (?srt ! j) \<and> fst (?srt ! i) < fst (?srt ! j)"
    show "i < j"
      by (rule equal_scores_order[OF s]) (use a srt_len in simp_all)
  qed
  moreover have "set ?srt = set scores" by (simp add: pickTopSix_sorted_def set_sort_cmp)
  ultimately show ?thesis using s by blast
qed

lemma has_odd_take_all: "has_odd (take k ns) \<Longrightarrow> has_odd ns"
  unfolding has_odd_def list_ex_iff using set_take_subset[of k ns] by blast

text \<open>
  Claim C4. For every composite score map over 1..49: the final selection is the one the
  greedy pass built (the fill loop adds nothing), every running selection with at least
  4 members (the prefixes of length 4, 5 and 6) has an odd and an even number, and so the
  six picks contain an odd number, also when the six highest scores all belong to even
  numbers. For every score map \<open>scores'\<close> whatever its keys: the running selections of
  the greedy pass with at least 4 members are never of one parity; and, when the keys are
  distinct, the fill loop completes the greedy selection with the first not yet selected
  entries of the whole sorted list, among them the entries the greedy pass skipped
  (deferred, not discarded).
\<close>

theorem C4_parity_guard:
  "(map fst scores = ALL_NUMBERS \<longrightarrow>
       pickTopSix_selected scores = greedy (pickTopSix_sorted scores) []
     \<and> list_all (\<lambda>k. has_odd (take k (map number (pickTopSix scores p)))
                    \<and> has_even (take k (map number (pickTopSix scores p)))) [4, 5, 6]
     \<and> has_odd (map number (pickTopSix scores p)))
   \<and> list_all (\<lambda>k. has_odd (map fst (take k (greedy (pickTopSix_sorted scores') [])))
                    \<and> has_even (map fst (take k (greedy (pickTopSix_sorted scores') []))))
        [4..<Suc (length (greedy (pickTopSix_sorted scores') []))]
   \<and> (distinct (map fst scores') \<longrightarrow>
       pickTopSix_selected scores' =
         greedy (pickTopSix_sorted scores') []
         @ take (6 - length (greedy (pickTopSix_sorted scores') []))
             (unselected (greedy (pickTopSix_sorted scores') []) (pickTopSix_sorted scores')))"
proof (intro conjI impI)
  assume keys: "map fst scores = ALL_NUMBERS"
  let ?g = "greedy (pickTopSix_sorted scores) []"
  show sel: "pickTopSix_selected scores = ?g" by (rule selected_all_numbers[OF keys])
  have len: "length ?g = 6" using selected_length[OF keys] sel by simp
  have run: "list_all (\<lambda>k. has_odd (map fst (take k ?g)) \<and> has_even (map fst (take k ?g)))
               [4..<Suc (length ?g)]"
    by (rule greedy_running_mixed)
  have "[4..<Suc (length ?g)] = [4, 5, 6]" unfolding len by (simp add: upt_rec)
  with run show 456: "list_all (\<lambda>k. has_odd (take k (map number (pickTopSix scores p)))
                    \<and> has_even (take k (map number (pickTopSix scores p)))) [4, 5, 6]"
    by (simp add: picks_number sel take_map)
  then show "has_odd (map number (pickTopSix scores p))"
    using has_odd_take_all[of 4] by simp
next
  show "list_all (\<lambda>k. has_odd (map fst (take k (greedy (pickTopSix_sorted scores') [])))
                    \<and> has_even (map fst (take k (greedy (pickTopSix_sorted scores') []))))
        [4..<Suc (length (greedy (pickTopSix_sorted scores') []))]"
    by (rule greedy_running_mixed)
next
  assume "distinct (map fst scores')"
  then have "distinct (map fst (pickTopSix_sorted scores'))"
    by (simp add: pickTopSix_sorted_def distinct_keys_sort_cmp)
  then show "pickTopSix_selected scores' =
         greedy (pickTopSix_sorted scores') []
         @ take (6 - length (greedy (pickTopSix_sorted scores') []))
             (unselected (greedy (pickTopSix_sorted scores') []) (pickTopSix_sorted scores'))"
    unfolding pickTopSix_selected_def Let_def by (rule fill_unselected)
qed

lemma evens_first_keys: "map fst evens_first = ALL_NUMBERS"
  by (simp add: evens_first_def comp_def)

lemma six_evens_sorted: "pickTopSix_sorted six_evens = six_evens"
  by (simp add: pickTopSix_sorted_def sort_cmp_def six_evens_def)

lemma six_evens_greedy: "greedy six_evens [] = [(2, 6), (4, 5), (6, 4)]"
  by (simp add: six_evens_def greedy_step has_odd_def has_even_def)

theorem C4_parity_guard_witness:
  "map fst evens_first = ALL_NUMBERS
   \<and> map fst (take 6 (pickTopSix_sorted evens_first)) = [2, 4, 6, 8, 10, 12]
   \<and> map number (pickTopSix evens_first []) = [2, 4, 6, 1, 3, 5]
   \<and> has_odd (map number (pickTopSix evens_first []))
   \<and> distinct (map fst six_evens)
   \<and> greedy (pickTopSix_sorted six_evens) [] = [(2, 6), (4, 5), (6, 4)]
   \<and> pickTopSix_selected six_evens = [(2, 6), (4, 5), (6, 4), (8, 3), (10, 2), (12, 1)]"
proof -
  have d: "distinct (map fst six_evens)" by (simp add: six_evens_def)
  have u: "unselected [(2, 6), (4, 5), (6, 4)] six_evens = [(8, 3), (10, 2), (12, 1)]"
    by (simp add: unselected_def six_evens_def)
  have t: "map fst (take 6 (pickTopSix_sorted evens_first)) = [2, 4, 6, 8, 10, 12]"
    by (simp add: evens_first_sorted)
  show ?thesis
    using C4_parity_guard[of evens_first "[]" six_evens] evens_first_keys d t
    by (simp add: six_evens_sorted six_evens_greedy u evens_first_picks)
qed

lemma composite_keys: "map fst (composite rnd s win) = ALL_NUMBERS"
  by (simp add: composite_def Let_def comp_def)

lemma window_take: "window ds = take 80 ds"
  by (simp add: window_def min_def)

lemma upt_six': "map Suc [0..<6] = [1, 2, 3, 4, 5, 6]"
  by (simp add: upt_rec)

text \<open>
  Claim C3. For every strategy id of the four and every list of draws, whatever the
  rounding of the arithmetic, \<open>generateStrategyResult\<close> returns exactly 6 picks with
  ranks 1 to 6 in order (rank \<open>i\<close> on the \<open>i\<close>-th selected pick), of distinct numbers;
  each pick carries the composite score of its number and the reason text made of the
  strategy name, \<open>" score="\<close> and the score printed with four decimals; and the result
  depends only on the 80 most recent draws.
\<close>

theorem C3_six_ranked_picks:
  "strategy (generateStrategyResult rnd s draws) = s
   \<and> length (picks (generateStrategyResult rnd s draws)) = 6
   \<and> map rank (picks (generateStrategyResult rnd s draws)) = [1, 2, 3, 4, 5, 6]
   \<and> distinct (map number (picks (generateStrategyResult rnd s draws)))
   \<and> list_all (\<lambda>pk. map_of (composite rnd s (take 80 draws)) (number pk) = Some (score pk)
                  \<and> reason pk = strategyMeta_name s @ js '' score='' @ toFixed 4 (score pk))
        (picks (generateStrategyResult rnd s draws))
   \<and> generateStrategyResult rnd s draws = generateStrategyResult rnd s (take 80 draws)"
proof -
  let ?comp = "composite rnd s (take 80 draws)"
  let ?sel = "pickTopSix_selected ?comp" and ?srt = "pickTopSix_sorted ?comp"
  let ?picks = "pickTopSix ?comp (strategyMeta_name s)"
  have keys: "map fst ?comp = ALL_NUMBERS" by (rule composite_keys)
  have p: "picks (generateStrategyResult rnd s draws) = ?picks"
    by (simp add: generateStrategyResult_def window_take)
  have len: "length ?sel = 6" by (rule selected_length[OF keys])
  have sub: "subseq ?sel ?srt" by (rule selected_subseq[OF keys])
  have dsrt: "distinct (map fst ?srt)"
    using keys distinct_ALL by (simp add: pickTopSix_sorted_def distinct_keys_sort_cmp)
  have dsel: "distinct (map fst ?sel)"
    using distinct_subseq[OF subseq_map[OF sub] dsrt] .
  have mem: "set ?sel \<subseteq> set ?comp"
    using subseq_set_subset[OF sub] by (simp add: pickTopSix_sorted_def set_sort_cmp)
  have dcomp: "distinct (map fst ?comp)" using keys distinct_ALL by simp
  have all: "list_all (\<lambda>pk. map_of ?comp (number pk) = Some (score pk)
                  \<and> reason pk = strategyMeta_name s @ js '' score='' @ toFixed 4 (score pk)) ?picks"
    unfolding list_all_length
  proof (intro allI impI)
    fix i assume "i < length ?picks"
    then have i: "i < length ?sel" by (simp add: picks_length)
    then have "?sel ! i \<in> set ?comp" using mem by auto
    then have "map_of ?comp (fst (?sel ! i)) = Some (snd (?sel ! i))"
      using dcomp by simp
    then show "map_of ?comp (number (?picks ! i)) = Some (score (?picks ! i))
        \<and> reason (?picks ! i) = strategyMeta_name s @ js '' score='' @ toFixed 4 (score (?picks ! i))"
      by (simp add: picks_nth[OF i])
  qed
  have w: "window (take 80 draws) = window draws" by (simp add: window_take)
  have "generateStrategyResult rnd s draws = generateStrategyResult rnd s (take 80 draws)"
    by (simp add: generateStrategyResult_def w)
  moreover have "length ?picks = 6" using len by (simp add: picks_length)
  moreover have "map rank ?picks = [1, 2, 3, 4, 5, 6]"
    using picks_rank[of ?comp "strategyMeta_name s"] len upt_six' by simp
  moreover have "distinct (map number ?picks)" using dsel by (simp add: picks_number)
  moreover have "strategy (generateStrategyResult rnd s draws) = s"
    by (simp add: generateStrategyResult_def)
  ultimately show ?thesis using all unfolding p by blast
qed

lemma freq_example:
  "frequencyMap example_window =
     map (\<lambda>n. (n, if n = 5 \<or> n = 6 then 2 else if n \<le> 10 then 1 else 0)) ALL_NUMBERS"
  by (simp add: frequencyMap_def example_window_def ALL_NUMBERS_def upt_rec decodeNumbers_def)

lemma example_rounding_values:
  "example_rounding 0 = 0"
  "example_rounding 1 = 1"
  "example_rounding 2 = 2"
  "example_rounding (1 / 2) = 1 / 2"
  "example_rounding (3 / 2) = 3 / 2"
  "example_rounding (8 / 10) = 3602879701896397 / 4503599627370496"
  "example_rounding (2 / 10) = 3602879701896397 / 18014398509481984"
  by (simp_all add: example_rounding_def)

lemma weighted_example:
  "weightedRecencyMap example_rounding example_window =
     map (\<lambda>n. (n, if n = 5 \<or> n = 6 then 3 / 2 else if n \<le> 4 then 1
                   else if n \<le> 10 then 1 / 2 else 0)) ALL_NUMBERS"
  by (simp add: weightedRecencyMap_def example_window_def ALL_NUMBERS_def upt_rec
      decodeNumbers_def Let_def example_rounding_values)

lemma normalized_freq_example:
  "normalize_map example_rounding (frequencyMap example_window) =
     map (\<lambda>n. (n, if n = 5 \<or> n = 6 then 1 else if n \<le> 10 then 1 / 2 else 0)) ALL_NUMBERS"
  unfolding freq_example
  by (simp add: normalize_map_def ALL_NUMBERS_def upt_rec example_rounding_def)

lemma normalized_weighted_example:
  "normalize_map example_rounding (weightedRecencyMap example_rounding example_window) =
     map (\<lambda>n. (n, if n = 5 \<or> n = 6 then 1
                   else if n \<le> 4 then 6004799503160661 / 9007199254740992
                   else if n \<le> 10 then 6004799503160661 / 18014398509481984 else 0))
         ALL_NUMBERS"
  unfolding weighted_example
  by (simp add: normalize_map_def ALL_NUMBERS_def upt_rec example_rounding_def)

lemma map_of_map_keys:
  "map_of (map (\<lambda>k. (k, f k)) xs) n = (if n \<in> set xs then Some (f n) else None)"
  by (induction xs) auto

lemma hot_example_composite:
  "composite example_rounding hot_v1 example_window =
     map (\<lambda>n. (n, if n = 5 \<or> n = 6 then 1
                   else if n \<le> 4 then 4803839602528529 / 9007199254740992
                   else if n \<le> 10 then 4203359652212463 / 9007199254740992 else 0))
         ALL_NUMBERS"
  unfolding composite_def normalized_freq_example normalized_weighted_example Let_def
    map_of_map_keys
  apply (rule map_cong [OF refl])
  apply (simp only: if_True option.simps StrategyId.simps example_rounding_values refl)
  apply (simp add: example_rounding_def)
  done

lemma hot_example_selected:
  "pickTopSix_selected (composite example_rounding hot_v1 example_window) =
     [(5, 1), (6, 1),
      (1, 4803839602528529 / 9007199254740992), (2, 4803839602528529 / 9007199254740992),
      (3, 4803839602528529 / 9007199254740992), (4, 4803839602528529 / 9007199254740992)]"
  unfolding hot_example_composite
  by (simp add: ALL_NUMBERS_def upt_rec pickTopSix_selected_def pickTopSix_sorted_def
      sort_cmp_def greedy_step has_odd_def has_even_def)

lemma toFixed_example:
  "toFixed 4 1 = js ''1.0000''"
  "toFixed 4 (4803839602528529 / 9007199254740992) = js ''0.5333''"
  by (simp_all add: toFixed_eval)

theorem C3_six_ranked_picks_witness:
  "take 80 example_window = example_window
   \<and> length (picks (generateStrategyResult example_rounding hot_v1 example_window)) = 6
   \<and> map number (picks (generateStrategyResult example_rounding hot_v1 example_window)) =
        [5, 6, 1, 2, 3, 4]
   \<and> map rank (picks (generateStrategyResult example_rounding hot_v1 example_window)) =
        [1, 2, 3, 4, 5, 6]
   \<and> map reason (take 3 (picks (generateStrategyResult example_rounding hot_v1 example_window))) =
        [strategyMeta_name hot_v1 @ js '' score=1.0000'',
         strategyMeta_name hot_v1 @ js '' score=1.0000'',
         strategyMeta_name hot_v1 @ js '' score=0.5333'']"
proof -
  let ?picks = "picks (generateStrategyResult example_rounding hot_v1 example_window)"
  have w: "take 80 example_window = example_window" by (simp add: example_window_def)
  have p: "?picks =
           pickTopSix (composite example_rounding hot_v1 example_window) (strategyMeta_name hot_v1)"
    by (simp add: generateStrategyResult_def window_take w)
  have n: "map number ?picks = [5, 6, 1, 2, 3, 4]"
    unfolding p by (simp add: picks_number hot_example_selected)
  have sc: "map score ?picks =
          [1, 1, 4803839602528529 / 9007199254740992, 4803839602528529 / 9007199254740992,
           4803839602528529 / 9007199254740992, 4803839602528529 / 9007199254740992]"
    unfolding p by (simp add: picks_score hot_example_selected)
  have "list_all (\<lambda>pk. map_of (composite example_rounding hot_v1 (take 80 example_window)) (number pk)
                    = Some (score pk)
                  \<and> reason pk = strategyMeta_name hot_v1 @ js '' score='' @ toFixed 4 (score pk))
        ?picks"
    using C3_six_ranked_picks[of example_rounding hot_v1 example_window] by blast
  then have "map reason ?picks =
        map (\<lambda>x. strategyMeta_name hot_v1 @ js '' score='' @ toFixed 4 x) (map score ?picks)"
    by (simp add: list_all_iff comp_def)
  then have "take 3 (map reason ?picks) =
        take 3 (map (\<lambda>x. strategyMeta_name hot_v1 @ js '' score='' @ toFixed 4 x) (map score ?picks))"
    by (rule arg_cong)
  then have "map reason (take 3 ?picks) =
        map (\<lambda>x. strategyMeta_name hot_v1 @ js '' score='' @ toFixed 4 x) (take 3 (map score ?picks))"
    by (simp only: take_map)
  then have r: "map reason (take 3 ?picks) =
        [strategyMeta_name hot_v1 @ js '' score=1.0000'',
         strategyMeta_name hot_v1 @ js '' score=1.0000'',
         strategyMeta_name hot_v1 @ js '' score=0.5333'']"
    unfolding sc by (simp add: toFixed_example js_def)
  show ?thesis
    using C3_six_ranked_picks[of example_rounding hot_v1 example_window] w n r by simp
qed

theorem C9_candidate_order_witness:
  "map fst evens_first = ALL_NUMBERS
   \<and> map fst (take 6 (pickTopSix_sorted evens_first)) = [2, 4, 6, 8, 10, 12]
   \<and> map snd (take 6 (pickTopSix_sorted evens_first)) = [1, 1, 1, 1, 1, 1]
   \<and> sorted_wrt before (pickTopSix_sorted evens_first)
   \<and> map number (pickTopSix evens_first []) = [2, 4, 6, 1, 3, 5]
   \<and> map rank (pickTopSix evens_first []) = [1, 2, 3, 4, 5, 6]"
proof -
  have r: "map rank (pickTopSix evens_first []) = [1, 2, 3, 4, 5, 6]"
    by (simp add: picks_rank evens_first_selected upt_six')
  have t: "map fst (take 6 (pickTopSix_sorted evens_first)) = [2, 4, 6, 8, 10, 12]"
          "map snd (take 6 (pickTopSix_sorted evens_first)) = [1, 1, 1, 1, 1, 1]"
    by (simp_all add: evens_first_sorted)
  show ?thesis
    using C9_candidate_order[of evens_first "[]"] evens_first_keys evens_first_picks r t by simp
qed

theorem C10_top_three_witness:
  "map fst evens_first = ALL_NUMBERS
   \<and> map number (take 3 (pickTopSix evens_first [])) = [2, 4, 6]
   \<and> map rank (take 3 (pickTopSix evens_first [])) = [1, 2, 3]
   \<and> score (hd (pickTopSix evens_first [])) = 1
   \<and> Max (snd ` set evens_first) = 1"
proof -
  have t: "map fst (take 3 (pickTopSix_sorted evens_first)) = [2, 4, 6]"
    by (simp add: evens_first_sorted)
  have "map score (pickTopSix evens_first []) = [1, 1, 1, 0, 0, 0]"
    by (simp add: picks_score evens_first_selected)
  then have s: "score (hd (pickTopSix evens_first [])) = 1"
    by (cases "pickTopSix evens_first []") auto
  show ?thesis
    using C10_top_three[of evens_first "[]"] evens_first_keys t s by simp
qed

subsection \<open>Normalization\<close>

lemma normalize_map_keys: "map fst (normalize_map rnd m) = map fst m"
  by (simp add: normalize_map_def Let_def case_prod_unfold)

lemma normalize_equal:
  assumes "rnd 0 = 0" "list_all (\<lambda>e. snd e = c) m"
  shows "normalize_map rnd m = map (\<lambda>e. (fst e, 0)) m"
proof (cases "m = []")
  case True
  then show ?thesis by (simp add: normalize_map_def)
next
  case False
  have "set (map snd m) = {c}" using assms(2) False by (cases m) (auto simp: list_all_iff)
  then have "Min (set (map snd m)) = c" "Max (set (map snd m)) = c" by simp_all
  then show ?thesis using assms False
    by (auto simp: normalize_map_def Let_def list_all_iff case_prod_unfold)
qed

lemma normalize_quotient:
  assumes "m \<noteq> []" "rnd (Max (snd ` set m) - Min (snd ` set m)) \<noteq> 0"
  shows "normalize_map rnd m =
           map (\<lambda>e. (fst e, rnd (rnd (snd e - Min (snd ` set m))
                                  / rnd (Max (snd ` set m) - Min (snd ` set m))))) m"
  using assms by (simp add: normalize_map_def Let_def case_prod_unfold)

lemma normalize_exact:
  assumes "m \<noteq> []" "Min (snd ` set m) \<noteq> Max (snd ` set m)"
    and "\<forall>e\<in>set m. rnd (snd e - Min (snd ` set m)) = snd e - Min (snd ` set m)
           \<and> rnd ((snd e - Min (snd ` set m)) / (Max (snd ` set m) - Min (snd ` set m)))
               = (snd e - Min (snd ` set m)) / (Max (snd ` set m) - Min (snd ` set m))"
  shows "normalize_map rnd m =
           map (\<lambda>e. (fst e, (snd e - Min (snd ` set m))
                             / (Max (snd ` set m) - Min (snd ` set m)))) m"
proof -
  let ?mn = "Min (snd ` set m)" and ?mx = "Max (snd ` set m)"
  have "?mx \<in> snd ` set m" using assms(1) by (intro Max_in) auto
  then obtain e where e: "e \<in> set m" "snd e = ?mx" by auto
  have r: "rnd (?mx - ?mn) = ?mx - ?mn" using assms(3) e by metis
  then have nz: "rnd (?mx - ?mn) \<noteq> 0" using assms(2) by simp
  show ?thesis
    unfolding normalize_quotient[of m rnd, OF assms(1) nz] using assms(3) r by simp
qed

lemma normalize_unit:
  assumes "rnd 0 = 0" "rnd 1 = 1" "mono rnd"
  shows "list_all (\<lambda>e. 0 \<le> snd e \<and> snd e \<le> 1) (normalize_map rnd m)"
proof (cases "m = []")
  case True
  then show ?thesis by (simp add: normalize_map_def)
next
  case False
  let ?mn = "Min (snd ` set m)" and ?mx = "Max (snd ` set m)"
  let ?r = "rnd (?mx - ?mn)"
  have b: "\<forall>e\<in>set m. ?mn \<le> snd e \<and> snd e \<le> ?mx" by simp
  have d: "\<forall>e\<in>set m. 0 \<le> rnd (snd e - ?mn) \<and> rnd (snd e - ?mn) \<le> ?r"
  proof
    fix e assume e: "e \<in> set m"
    have "rnd 0 \<le> rnd (snd e - ?mn)" using b e by (intro monoD[OF assms(3)]) simp
    moreover have "rnd (snd e - ?mn) \<le> ?r" using b e by (intro monoD[OF assms(3)]) simp
    ultimately show "0 \<le> rnd (snd e - ?mn) \<and> rnd (snd e - ?mn) \<le> ?r"
      using assms(1) by simp
  qed
  show ?thesis
  proof (cases "?r = 0")
    case True
    then have "\<forall>e\<in>set m. rnd (snd e - ?mn) = 0" using d by fastforce
    then show ?thesis using False True assms(1)
      by (simp add: normalize_map_def Let_def case_prod_unfold list_all_iff)
  next
    case nz: False
    obtain e0 where "e0 \<in> set m" using False by (cases m) auto
    then have pos: "0 < ?r" using d nz by fastforce
    have "\<forall>e\<in>set m. 0 \<le> rnd (rnd (snd e - ?mn) / ?r) \<and> rnd (rnd (snd e - ?mn) / ?r) \<le> 1"
    proof
      fix e assume e: "e \<in> set m"
      have "0 \<le> rnd (snd e - ?mn) / ?r" "rnd (snd e - ?mn) / ?r \<le> 1"
        using d e pos by (simp_all add: divide_le_eq)
      then have "rnd 0 \<le> rnd (rnd (snd e - ?mn) / ?r)" "rnd (rnd (snd e - ?mn) / ?r) \<le> rnd 1"
        by (auto intro: monoD[OF assms(3)])
      then show "0 \<le> rnd (rnd (snd e - ?mn) / ?r) \<and> rnd (rnd (snd e - ?mn) / ?r) \<le> 1"
        using assms(1,2) by simp
    qed
    then show ?thesis
      unfolding normalize_quotient[of m rnd, OF False nz] by (simp add: list_all_iff)
  qed
qed

text \<open>
  Claim C8. \<open>rnd\<close> is the rounding of the arithmetic: it leaves 0 and 1 as they are and
  is monotone, as rounding to the nearest double is on values that do not overflow. For
  every signal map in which all values are equal, min-max normalization returns 0 for
  every entry (a constant zero vector, no failure and no division by zero). For every
  non-empty map whose computed \<open>max - min\<close> is not 0 (for doubles: whose minimum and
  maximum are distinct), each value \<open>v\<close> is mapped to the computed quotient of \<open>v - min\<close>
  by \<open>max - min\<close>; where neither the differences nor the quotients need rounding, that
  is \<open>(v - min) / (max - min)\<close> itself. Every value returned lies in \<open>[0, 1]\<close>. The map
  is any list of entries, so the maps over 1..49 are covered.
\<close>

theorem C8_normalize:
  assumes "rnd 0 = 0" "rnd 1 = 1" "mono rnd"
  shows "(list_all (\<lambda>e. snd e = c) m \<longrightarrow> normalize_map rnd m = map (\<lambda>e. (fst e, 0)) m)
   \<and> (m \<noteq> [] \<and> rnd (Max (snd ` set m) - Min (snd ` set m)) \<noteq> 0 \<longrightarrow>
        normalize_map rnd m =
          map (\<lambda>e. (fst e, rnd (rnd (snd e - Min (snd ` set m))
                                 / rnd (Max (snd ` set m) - Min (snd ` set m))))) m)
   \<and> (m \<noteq> [] \<and> Min (snd ` set m) \<noteq> Max (snd ` set m)
        \<and> (\<forall>e\<in>set m. rnd (snd e - Min (snd ` set m)) = snd e - Min (snd ` set m)
              \<and> rnd ((snd e - Min (snd ` set m)) / (Max (snd ` set m) - Min (snd ` set m)))
                  = (snd e - Min (snd ` set m)) / (Max (snd ` set m) - Min (snd ` set m))) \<longrightarrow>
        normalize_map rnd m =
          map (\<lambda>e. (fst e, (snd e - Min (snd ` set m))
                            / (Max (snd ` set m) - Min (snd ` set m)))) m)
   \<and> list_all (\<lambda>e. 0 \<le> snd e \<and> snd e \<le> 1) (normalize_map rnd m)"
  using normalize_equal[of rnd c m, OF assms(1)] normalize_quotient[of m rnd]
    normalize_exact[of m rnd] normalize_unit[of rnd m, OF assms]
  by blast

text \<open>On the map \<open>[(1, 2), (2, 4), (3, 10)]\<close> the differences 0, 2, 8 and the quotients
  0, 1/4, 1 are doubles: no operation rounds.\<close>

theorem C8_normalize_witness:
  "(\<lambda>x::rat. x) 0 = 0 \<and> (\<lambda>x::rat. x) 1 = 1 \<and> mono (\<lambda>x::rat. x)
   \<and> list_all (\<lambda>e. snd e = (3::rat)) (map (\<lambda>n. (n, 3)) ALL_NUMBERS)
   \<and> normalize_map (\<lambda>x. x) (map (\<lambda>n. (n, 3)) ALL_NUMBERS) = map (\<lambda>n. (n, 0)) ALL_NUMBERS
   \<and> [(1::nat, 2::rat), (2, 4), (3, 10)] \<noteq> []
   \<and> Min (snd ` set [(1::nat, 2::rat), (2, 4), (3, 10)]) \<noteq> Max (snd ` set [(1::nat, 2::rat), (2, 4), (3, 10)])
   \<and> normalize_map (\<lambda>x. x) [(1, 2), (2, 4), (3, 10)] = [(1, 0), (2, 1 / 4), (3, 1)]
   \<and> list_all (\<lambda>e. 0 \<le> snd e \<and> snd e \<le> 1) (normalize_map (\<lambda>x. x) [(1::nat, 2), (2, 4), (3, 10)])"
proof -
  have m: "mono (\<lambda>x::rat. x)" by (simp add: mono_def)
  have a: "list_all (\<lambda>e. snd e = (3::rat)) (map (\<lambda>n. (n, 3)) ALL_NUMBERS)"
    by (simp add: list_all_iff)
  have b: "[(1::nat, 2::rat), (2, 4), (3, 10)] \<noteq> []" by simp
  have mn: "Min (snd ` set [(1::nat, 2::rat), (2, 4), (3, 10)]) = 2" by simp
  have mx: "Max (snd ` set [(1::nat, 2::rat), (2, 4), (3, 10)]) = 10" by simp
  have c: "Min (snd ` set [(1::nat, 2::rat), (2, 4), (3, 10)]) \<noteq> Max (snd ` set [(1::nat, 2::rat), (2, 4), (3, 10)])"
    unfolding mn mx by simp
  show ?thesis
    using C8_normalize[of "\<lambda>x. x" 3 "map (\<lambda>n. (n, 3)) ALL_NUMBERS"] a m
      C8_normalize[of "\<lambda>x. x" 0 "[(1, 2), (2, 4), (3, 10)]"] b c
    unfolding mn mx by (simp add: comp_def)
qed

section \<open>Properties of the prediction service\<close>

subsection \<open>Issue sequencer\<close>

lemma split_on_no_sep: "sep \<notin> set s \<Longrightarrow> split_on sep s = [s]"
  by (induction s) auto

lemma split_on_append: "sep \<notin> set y \<Longrightarrow> split_on sep (y @ sep # r) = y # split_on sep r"
  by (induction y) auto

lemma digit_not_ws: "is_digit c \<Longrightarrow> \<not> is_ws c"
  by (auto simp: is_digit_def is_ws_def)

lemma trim_digits:
  assumes "ds \<noteq> []" "list_all is_digit ds"
  shows "trim ds = ds"
proof -
  have h: "\<not> is_ws (hd ds)" using assms by (cases ds) (auto simp: digit_not_ws)
  have l: "\<not> is_ws (last ds)" using assms by (auto simp: list_all_iff digit_not_ws)
  have 1: "dropWhile is_ws ds = ds" using h assms(1) by (cases ds) auto
  obtain xs x where snoc: "ds = xs @ [x]" using assms(1) by (cases ds rule: rev_cases) auto
  have 2: "dropWhile is_ws (rev ds) = rev ds" using l unfolding snoc by simp
  show ?thesis by (simp add: trim_def 1 2)
qed

lemma parse_nondecimal_digits:
  assumes "list_all is_digit ds"
  shows "parse_nondecimal ds = None"
proof (cases ds)
  case Nil
  then show ?thesis by (simp add: parse_nondecimal_def)
next
  case (Cons z t)
  show ?thesis
  proof (cases t)
    case Nil
    then show ?thesis using Cons by (simp add: parse_nondecimal_def)
  next
    case (Cons x r)
    have "is_digit x" using assms \<open>ds = z # t\<close> Cons by simp
    then have "x \<noteq> 120 \<and> x \<noteq> 88 \<and> x \<noteq> 111 \<and> x \<noteq> 79 \<and> x \<noteq> 98 \<and> x \<noteq> 66"
      by (auto simp: is_digit_def)
    then show ?thesis using \<open>ds = z # t\<close> Cons by (simp add: parse_nondecimal_def Let_def)
  qed
qed

lemma parse_unsigned_digits:
  assumes "ds \<noteq> []" "list_all is_digit ds"
  shows "parse_unsigned_decimal ds = JNum (of_nat (digits_value ds))"
proof -
  have "is_digit (hd ds)" using assms by (cases ds) auto
  then have "hd ds \<noteq> 73" by (auto simp: is_digit_def)
  then have ni: "ds \<noteq> js ''Infinity''" by (auto simp: js_def)
  have t: "takeWhile is_digit ds = ds" using assms(2) by (simp add: list_all_iff)
  have d: "dropWhile is_digit ds = []" using assms(2) by (simp add: list_all_iff)
  show ?thesis
    using ni assms(1)
    by (simp add: parse_unsigned_decimal_def t d Let_def parse_exponent_def digits_value_def radix_value_def)
qed

lemma js_Number_digits:
  assumes "ds \<noteq> []" "list_all is_digit ds"
  shows "js_Number ds = JNum (of_nat (digits_value ds))"
proof -
  obtain c r where ds: "ds = c # r" using assms(1) by (cases ds) auto
  have "is_digit c" using assms(2) ds by simp
  then have c: "c \<noteq> 43" "c \<noteq> 45" by (auto simp: is_digit_def)
  show ?thesis
    using trim_digits[OF assms] parse_nondecimal_digits[OF assms(2)] parse_unsigned_digits[OF assms] c
    by (simp add: js_Number_def Let_def ds)
qed

lemma js_String_nat: "js_String (JNum (of_nat n)) = dec_digits n"
  by (simp add: Let_def)

lemma radix_value_snoc: "radix_value r (xs @ [c]) = r * radix_value r xs + digit_val c"
  by (simp add: radix_value_def)

lemma digits_value_dec_digits: "digits_value (dec_digits n) = n"
proof (induction n rule: dec_digits.induct)
  case (1 n)
  show ?case
  proof (cases "n < 10")
    case True
    then show ?thesis
      by (simp add: dec_digits_small digits_value_def radix_value_def digit_val_def)
  next
    case False
    then have "digits_value (dec_digits (n div 10)) = n div 10" using 1 by simp
    moreover have "digit_val (48 + n mod 10) = n mod 10" by (simp add: digit_val_def)
    ultimately show ?thesis using False
      by (simp add: dec_digits_large digits_value_def radix_value_snoc)
  qed
qed

lemma digits_value_zeros: "digits_value (replicate k 48 @ s) = digits_value s"
  by (induction k) (simp_all add: digits_value_def radix_value_def digit_val_def)

lemma digits_value_padStart0: "digits_value (padStart0 n (dec_digits m)) = m"
  by (simp add: padStart0_def digits_value_zeros digits_value_dec_digits)

lemma nextIssueNo_total: "nextIssueNo s \<noteq> Inl e"
  by (auto simp: nextIssueNo_def Let_def js_Number_opt_def Number_isNaN_def split: option.splits)

lemma nextIssueNo_digits:
  assumes "year \<noteq> []" "47 \<notin> set year" "ds \<noteq> []" "list_all is_digit ds"
  shows "nextIssueNo (year @ js ''/'' @ ds) =
         Inr (year @ js ''/'' @ padStart0 (length ds) (dec_digits (digits_value ds + 1)))"
proof -
  have "47 \<notin> set ds" using assms(4) by (auto simp: list_all_iff is_digit_def)
  then have sp: "split_on 47 (year @ js ''/'' @ ds) = [year, ds]"
    using split_on_append[OF assms(2), of ds] by (simp add: js_def split_on_no_sep)
  have n: "js_Number ds = JNum (of_nat (digits_value ds))"
    by (rule js_Number_digits[OF assms(3,4)])
  have "js_String (js_succ (JNum (of_nat (digits_value ds)))) = dec_digits (digits_value ds + 1)"
    using js_String_nat[of "digits_value ds + 1"] by (simp del: js_String.simps add: add.commute)
  then show ?thesis
    using assms(1)
    by (simp add: nextIssueNo_def sp at_index_def js_Number_opt_def n Number_isNaN_def Let_def
             del: js_String.simps js_succ.simps)
qed

lemma nextIssueNo_unchanged:
  assumes "at_index (split_on 47 s) 0 = Some [] \<or> Number_isNaN (js_Number_opt (at_index (split_on 47 s) 1))"
  shows "nextIssueNo s = Inr s"
  using assms by (auto simp: nextIssueNo_def Let_def)

lemma frac_digits_numeral:
  "frac_digits (numeral k) r =
     (if r = 0 then []
      else (48 + nat \<lfloor>r * 10\<rfloor>) # frac_digits (pred_numeral k) (r * 10 - of_int \<lfloor>r * 10\<rfloor>))"
  by (simp add: numeral_eq_Suc)

lemmas js_eval = js_def at_index_def js_Number_opt_def js_Number_def trim_def is_ws_def
  parse_nondecimal_def parse_unsigned_decimal_def is_digit_def parse_exponent_def digits_value_def
  radix_value_def digit_val_def padStart0_def Number_isNaN_def Number_isInteger_def Let_def
  dec_digits_small dec_digits_large floor_rat_numeral_div frac_digits_numeral

lemma next_abc: "nextIssueNo (js ''abc'') = Inr (js ''abc'')"
  by (simp add: nextIssueNo_def js_eval)

lemma next_frac: "nextIssueNo (js ''25/1.5'') = Inr (js ''25/2.5'')"
  by (simp add: nextIssueNo_def js_eval)

lemma num_frac: "js_Number (js ''1.5'') = JNum (3 / 2)"
  by (simp add: js_eval)

lemma next_049: "nextIssueNo (js ''25/049'') = Inr (js ''25/050'')"
  by (simp add: nextIssueNo_def js_eval)

text \<open>
  Claim C6, as amended. For every issue id \<open>year/digits\<close> with a non-empty year without
  \<open>/\<close> and a non-empty digit sequence of value below \<open>2^53\<close>, \<open>nextIssueNo\<close> returns the
  same year, \<open>/\<close> and the sequence plus one, zero-padded on the left to at least the width
  of the input's sequence text. For every input whose year part is empty, or whose sequence
  part is missing or is converted by \<open>Number\<close> to \<open>NaN\<close>, it returns the input unchanged.
  It never raises.
\<close>

theorem C6_nextIssueNo:
  "(year \<noteq> [] \<and> 47 \<notin> set year \<and> ds \<noteq> [] \<and> list_all is_digit ds \<and> digits_value ds < 2 ^ 53 \<longrightarrow>
      nextIssueNo (year @ js ''/'' @ ds) =
        Inr (year @ js ''/'' @ padStart0 (length ds) (dec_digits (digits_value ds + 1)))
    \<and> digits_value (padStart0 (length ds) (dec_digits (digits_value ds + 1))) = digits_value ds + 1
    \<and> length ds \<le> length (padStart0 (length ds) (dec_digits (digits_value ds + 1))))
   \<and> (at_index (split_on 47 s) 0 = Some []
        \<or> Number_isNaN (js_Number_opt (at_index (split_on 47 s) 1)) \<longrightarrow> nextIssueNo s = Inr s)
   \<and> (\<exists>r. nextIssueNo s = Inr r)"
proof (intro conjI impI)
  assume a: "year \<noteq> [] \<and> 47 \<notin> set year \<and> ds \<noteq> [] \<and> list_all is_digit ds \<and> digits_value ds < 2 ^ 53"
  then show "nextIssueNo (year @ js ''/'' @ ds) =
        Inr (year @ js ''/'' @ padStart0 (length ds) (dec_digits (digits_value ds + 1)))"
    using nextIssueNo_digits[of year ds] by blast
  show "digits_value (padStart0 (length ds) (dec_digits (digits_value ds + 1))) = digits_value ds + 1"
    by (rule digits_value_padStart0)
  show "length ds \<le> length (padStart0 (length ds) (dec_digits (digits_value ds + 1)))"
    by (simp add: padStart0_def)
next
  assume "at_index (split_on 47 s) 0 = Some []
        \<or> Number_isNaN (js_Number_opt (at_index (split_on 47 s) 1))"
  then show "nextIssueNo s = Inr s" by (rule nextIssueNo_unchanged)
next
  show "\<exists>r. nextIssueNo s = Inr r"
    using nextIssueNo_total[of s] by (cases "nextIssueNo s") auto
qed

theorem C6_nextIssueNo_witness:
  "js ''25'' \<noteq> [] \<and> 47 \<notin> set (js ''25'') \<and> js ''049'' \<noteq> [] \<and> list_all is_digit (js ''049'')
   \<and> digits_value (js ''049'') < 2 ^ 53
   \<and> nextIssueNo (js ''25/049'') = Inr (js ''25/050'')
   \<and> Number_isNaN (js_Number_opt (at_index (split_on 47 (js ''abc'')) 1))
   \<and> nextIssueNo (js ''abc'') = Inr (js ''abc'')"
proof -
  have h: "js ''25'' \<noteq> [] \<and> 47 \<notin> set (js ''25'') \<and> js ''049'' \<noteq> [] \<and> list_all is_digit (js ''049'')
        \<and> digits_value (js ''049'') < 2 ^ 53"
    by (simp add: js_eval)
  have n: "Number_isNaN (js_Number_opt (at_index (split_on 47 (js ''abc'')) 1))"
    by (simp add: js_eval)
  have e: "js ''25'' @ js ''/'' @ js ''049'' = js ''25/049''" by (simp add: js_def)
  have p: "js ''25'' @ js ''/'' @ padStart0 (length (js ''049'')) (dec_digits (digits_value (js ''049'') + 1))
           = js ''25/050''"
    by (simp add: js_eval)
  show ?thesis
    using C6_nextIssueNo[of "js ''25''" "js ''049''" "js ''abc''"] h n unfolding e p by blast
qed

text \<open>
  The claim as stated fails: \<open>"25/1.5"\<close> does not parse into a year and an integer
  sequence, since \<open>Number("1.5")\<close> is not an integer, yet the guard only tests for
  \<open>NaN\<close> and the result is \<open>"25/2.5"\<close>, not the input.
\<close>

theorem C6_nextIssueNo_counterexample:
  "nextIssueNo (js ''25/1.5'') = Inr (js ''25/2.5'')
   \<and> js_Number (js ''1.5'') = JNum (3 / 2)
   \<and> \<not> Number_isInteger (JNum (3 / 2))
   \<and> nextIssueNo (js ''25/1.5'') \<noteq> Inr (js ''25/1.5'')"
  by (simp add: next_frac num_frac) (simp add: js_eval)

subsection \<open>Review engine\<close>


lemma dec_digits_nonempty: "dec_digits n \<noteq> []"
  by (cases "n < 10") (simp_all add: dec_digits_small dec_digits_large)





























section \<open>Properties of the history audit\<close>














































end
